theory Spec2Isabelle
  imports Main "HOL-Library.AList" "HOL-Library.Char_ord" "HOL-Library.List_Lexorder"
begin

section \<open>Data model\<close>

text \<open>
  The graphs are objects of the library pgGraphs. The code reads two of their
  attributes: \<^verbatim>\<open>segments\<close>, a dict from a node name to a dict with the entries
  \<^verbatim>\<open>'length'\<close>, \<^verbatim>\<open>'seq'\<close> and, once offsets are computed, \<^verbatim>\<open>'PO'\<close>; and
  \<^verbatim>\<open>paths\<close>, a dict from a path name to a dict whose entry \<^verbatim>\<open>'path'\<close> is the
  ordered list of (node name, orientation) pairs. Lengths are Python integers.
  The dict of paths is kept as an association list, since the code iterates over
  its keys; a Python exception is a value of type \<open>error\<close>.
\<close>

datatype error = KeyError | ValueError | IndexError | TypeError

datatype orientation = Forward | Reverse

record segment =
  seg_length :: int
  seq :: string
  PO :: "(string \<times> (int \<times> int \<times> orientation) list) list"

record graph =
  segments :: "string \<rightharpoonup> segment"
  paths :: "(string \<times> (string \<times> orientation) list) list"

section \<open>Path-level edition (edit\_distance.py)\<close>

text \<open>
  The local variables of the co-traversal loop: the cursors \<^verbatim>\<open>i\<close> and \<^verbatim>\<open>j\<close>, the
  sets \<^verbatim>\<open>merges\<close> and \<^verbatim>\<open>splits\<close>, and the three positions. The sets hold
  positions at path level and sets of (path name, positions) pairs at graph level.
\<close>

record 'e cursor =
  ci :: nat
  cj :: nat
  merges :: "'e set"
  splits :: "'e set"
  pos_A :: int
  pos_B :: int
  global_pos :: int

definition init_cursor :: "int cursor" where
  "init_cursor = \<lparr>ci = 0, cj = 0, merges = {}, splits = {}, pos_A = 0, pos_B = 0, global_pos = 0\<rparr>"

text \<open>
  The loop condition
  \<^verbatim>\<open>i < len(graph_A.paths[path_name]['path']) and j < len(graph_B.paths[path_name]['path'])\<close>:
  the lookup in \<^verbatim>\<open>graph_B\<close> happens only when the first conjunct holds.
\<close>

definition loop_cond :: "graph \<Rightarrow> graph \<Rightarrow> string \<Rightarrow> int cursor \<Rightarrow> error + bool" where
  "loop_cond graph_A graph_B path_name s =
     (case map_of (paths graph_A) path_name of
        None \<Rightarrow> Inl KeyError
      | Some path_A \<Rightarrow>
          if ci s < length path_A then
            (case map_of (paths graph_B) path_name of
               None \<Rightarrow> Inl KeyError
             | Some path_B \<Rightarrow> Inr (cj s < length path_B))
          else Inr False)"

text \<open>
  The body of the loop, lines 99 to 136 (and, word for word, lines 451 to 488 of
  \<^verbatim>\<open>edit_single_path_path_level\<close>). It runs only when the condition holds, so the
  two paths exist and both cursors are in range.
\<close>

definition loop_body :: "graph \<Rightarrow> graph \<Rightarrow> string \<Rightarrow> int cursor \<Rightarrow> error + int cursor" where
  "loop_body graph_A graph_B path_name s =
     (case map_of (paths graph_A) path_name of
        None \<Rightarrow> Inl KeyError
      | Some path_A \<Rightarrow>
     (case map_of (paths graph_B) path_name of
        None \<Rightarrow> Inl KeyError
      | Some path_B \<Rightarrow>
     (if \<not> (ci s < length path_A \<and> cj s < length path_B) then Inl IndexError
      else
     (let current_node_A = fst (path_A ! ci s);
          current_node_B = fst (path_B ! cj s)
      in
     (case segments graph_A current_node_A of
        None \<Rightarrow> Inl KeyError
      | Some seg_A \<Rightarrow>
     (case segments graph_B current_node_B of
        None \<Rightarrow> Inl KeyError
      | Some seg_B \<Rightarrow>
     (let gp = min (global_pos s + (seg_length seg_A - (global_pos s - pos_A s)))
                   (global_pos s + (seg_length seg_B - (global_pos s - pos_B s)))
      in
        if gp - pos_A s = seg_length seg_A \<and> gp - pos_B s = seg_length seg_B then
          Inr (s\<lparr>global_pos := gp,
                 pos_A := pos_A s + seg_length seg_A,
                 pos_B := pos_B s + seg_length seg_B,
                 ci := ci s + 1,
                 cj := cj s + 1\<rparr>)
        else if gp - pos_A s = seg_length seg_A then
          Inr (s\<lparr>global_pos := gp,
                 splits := insert gp (splits s),
                 pos_A := pos_A s + seg_length seg_A,
                 ci := ci s + 1\<rparr>)
        else if gp - pos_B s = seg_length seg_B then
          Inr (s\<lparr>global_pos := gp,
                 merges := insert gp (merges s),
                 pos_B := pos_B s + seg_length seg_B,
                 cj := cj s + 1\<rparr>)
        else Inl ValueError)))))))"

text \<open>What is left of the two paths: the loop ends when either cursor reaches the end.\<close>

definition remaining :: "graph \<Rightarrow> graph \<Rightarrow> string \<Rightarrow> int cursor \<Rightarrow> nat" where
  "remaining graph_A graph_B path_name s =
     (case map_of (paths graph_A) path_name of None \<Rightarrow> 0 | Some path_A \<Rightarrow> length path_A - ci s)
   + (case map_of (paths graph_B) path_name of None \<Rightarrow> 0 | Some path_B \<Rightarrow> length path_B - cj s)"

function co_traversal :: "graph \<Rightarrow> graph \<Rightarrow> string \<Rightarrow> int cursor \<Rightarrow> error + int cursor" where
  "co_traversal graph_A graph_B path_name s =
     (case loop_cond graph_A graph_B path_name s of
        Inl e \<Rightarrow> Inl e
      | Inr c \<Rightarrow>
          if c then
            (case loop_body graph_A graph_B path_name s of
               Inl e \<Rightarrow> Inl e
             | Inr s' \<Rightarrow> co_traversal graph_A graph_B path_name s')
          else Inr s)"
  by pat_completeness auto
termination
  by (relation "measure (\<lambda>(graph_A, graph_B, path_name, s). remaining graph_A graph_B path_name s)")
    (auto simp: loop_cond_def loop_body_def remaining_def Let_def
      split: option.splits if_splits)

declare co_traversal.simps [simp del]

text \<open>The dict returned for one path: both sets as sorted lists.\<close>

record edition =
  ed_merges :: "int list"
  ed_splits :: "int list"

definition edition_of :: "int cursor \<Rightarrow> edition" where
  "edition_of s = \<lparr>ed_merges = sorted_list_of_set (merges s),
                   ed_splits = sorted_list_of_set (splits s)\<rparr>"

definition edit_single_path_path_level :: "string \<Rightarrow> graph \<Rightarrow> graph \<Rightarrow> error + edition" where
  "edit_single_path_path_level path_name graph_A graph_B =
     (case co_traversal graph_A graph_B path_name init_cursor of
        Inl e \<Rightarrow> Inl e
      | Inr s \<Rightarrow> Inr (edition_of s))"

text \<open>
  \<^verbatim>\<open>path_level_edition\<close> runs the same loop for each selected path and stores the
  result under the path's name. \<^verbatim>\<open>selected_paths\<close> is a Python set; the list gives
  the order in which it is iterated. An exception ends the whole call.
\<close>

fun path_level_edition_loop ::
  "graph \<Rightarrow> graph \<Rightarrow> string list \<Rightarrow> (string \<times> edition) list \<Rightarrow> error + (string \<times> edition) list" where
  "path_level_edition_loop graph_A graph_B [] edition_results = Inr edition_results"
| "path_level_edition_loop graph_A graph_B (path_name # rest) edition_results =
     (case co_traversal graph_A graph_B path_name init_cursor of
        Inl e \<Rightarrow> Inl e
      | Inr s \<Rightarrow>
          path_level_edition_loop graph_A graph_B rest
            (AList.update path_name (edition_of s) edition_results))"

definition path_level_edition ::
  "graph \<Rightarrow> graph \<Rightarrow> string list \<Rightarrow> error + (string \<times> edition) list" where
  "path_level_edition graph_A graph_B selected_paths =
     path_level_edition_loop graph_A graph_B selected_paths []"

text \<open>
  For the properties of the result: the positions at which the segments of a
  segmentation end, counted from \<open>pos\<close>, and the segment ends of one segmentation,
  up to a limit, that are no segment ends of another.
\<close>

fun breakpoints :: "int \<Rightarrow> int list \<Rightarrow> int list" where
  "breakpoints pos [] = []"
| "breakpoints pos (len # rest) = (pos + len) # breakpoints (pos + len) rest"

definition edits_up_to :: "int \<Rightarrow> int list \<Rightarrow> int list \<Rightarrow> int list" where
  "edits_up_to limit S other =
     filter (\<lambda>x. x \<le> limit \<and> x \<notin> set (breakpoints 0 other)) (breakpoints 0 S)"

section \<open>Parallel variant and entry point (edit\_distance.py)\<close>

text \<open>
  Modelled from the spec: \<^verbatim>\<open>futures_collector\<close> of the library tharospytools, which
  is not part of the sources. It is the parallel dispatcher of section 2 of the
  specification: it calls \<^verbatim>\<open>func\<close> on every tuple of \<^verbatim>\<open>argslist\<close> on independent
  workers and returns the list of the results, in the order of \<^verbatim>\<open>argslist\<close> (the
  caller pairs \<^verbatim>\<open>editions[i]\<close> with \<^verbatim>\<open>paths_of_graph[i]\<close>); an exception of a call
  reaches the caller.
\<close>

fun futures_collector :: "('a \<Rightarrow> error + 'b) \<Rightarrow> 'a list \<Rightarrow> error + 'b list" where
  "futures_collector func [] = Inr []"
| "futures_collector func (args # argslist) =
     (case func args of
        Inl e \<Rightarrow> Inl e
      | Inr r \<Rightarrow>
          (case futures_collector func argslist of
             Inl e \<Rightarrow> Inl e
           | Inr rs \<Rightarrow> Inr (r # rs)))"

text \<open>
  \<^verbatim>\<open>path_level_edition_multiprocessing\<close>: the dict comprehension
  \<^verbatim>\<open>{paths_of_graph[i]: edits for i, edits in enumerate(editions)}\<close> stores the
  results one after the other.
\<close>

definition path_level_edition_multiprocessing ::
  "graph \<Rightarrow> graph \<Rightarrow> string list \<Rightarrow> error + (string \<times> edition) list" where
  "path_level_edition_multiprocessing graph_A graph_B selected_paths =
     (let paths_of_graph = selected_paths in
      case futures_collector
             (\<lambda>path_name. edit_single_path_path_level path_name graph_A graph_B)
             paths_of_graph of
        Inl e \<Rightarrow> Inl e
      | Inr editions \<Rightarrow>
          Inr (fold (\<lambda>(i, edits) d. AList.update (paths_of_graph ! i) edits d)
                 (enumerate 0 editions) []))"

text \<open>
  Graph-level edition. An event is a \<^verbatim>\<open>frozenset\<close> of pairs of a path name and a
  \<^verbatim>\<open>frozenset\<close> of positions, read from the entry \<^verbatim>\<open>'PO'\<close> of the current segment
  of \<^verbatim>\<open>graph_B\<close>. The loop is the one of the path level but for what it records.
\<close>

type_synonym event = "(string \<times> int set) set"

definition graph_loop_body ::
  "graph \<Rightarrow> graph \<Rightarrow> string \<Rightarrow> event cursor \<Rightarrow> error + event cursor" where
  "graph_loop_body graph_A graph_B path_name s =
     (case map_of (paths graph_A) path_name of
        None \<Rightarrow> Inl KeyError
      | Some path_A \<Rightarrow>
     (case map_of (paths graph_B) path_name of
        None \<Rightarrow> Inl KeyError
      | Some path_B \<Rightarrow>
     (if \<not> (ci s < length path_A \<and> cj s < length path_B) then Inl IndexError
      else
     (let current_node_A = fst (path_A ! ci s);
          current_node_B = fst (path_B ! cj s)
      in
     (case segments graph_A current_node_A of
        None \<Rightarrow> Inl KeyError
      | Some seg_A \<Rightarrow>
     (case segments graph_B current_node_B of
        None \<Rightarrow> Inl KeyError
      | Some seg_B \<Rightarrow>
     (let gp = min (global_pos s + (seg_length seg_A - (global_pos s - pos_A s)))
                   (global_pos s + (seg_length seg_B - (global_pos s - pos_B s)))
      in
        if gp - pos_A s = seg_length seg_A \<and> gp - pos_B s = seg_length seg_B then
          Inr (s\<lparr>global_pos := gp,
                 pos_A := pos_A s + seg_length seg_A,
                 pos_B := pos_B s + seg_length seg_B,
                 ci := ci s + 1,
                 cj := cj s + 1\<rparr>)
        else if gp - pos_A s = seg_length seg_A then
          Inr (s\<lparr>global_pos := gp,
                 splits := insert
                   ((\<lambda>(name, list_of_positions).
                       (name, (\<lambda>(x, _, _). x + gp - pos_A s) ` set list_of_positions))
                    ` set (PO seg_B))
                   (splits s),
                 pos_A := pos_A s + seg_length seg_A,
                 ci := ci s + 1\<rparr>)
        else if gp - pos_B s = seg_length seg_B then
          Inr (s\<lparr>global_pos := gp,
                 merges := insert
                   ((\<lambda>(name, list_of_positions).
                       (name, (\<lambda>(_, x, _). x) ` set list_of_positions))
                    ` set (PO seg_B))
                   (merges s),
                 pos_B := pos_B s + seg_length seg_B,
                 cj := cj s + 1\<rparr>)
        else Inl ValueError)))))))"

definition graph_loop_cond :: "graph \<Rightarrow> graph \<Rightarrow> string \<Rightarrow> event cursor \<Rightarrow> error + bool" where
  "graph_loop_cond graph_A graph_B path_name s =
     (case map_of (paths graph_A) path_name of
        None \<Rightarrow> Inl KeyError
      | Some path_A \<Rightarrow>
          if ci s < length path_A then
            (case map_of (paths graph_B) path_name of
               None \<Rightarrow> Inl KeyError
             | Some path_B \<Rightarrow> Inr (cj s < length path_B))
          else Inr False)"

definition graph_remaining :: "graph \<Rightarrow> graph \<Rightarrow> string \<Rightarrow> event cursor \<Rightarrow> nat" where
  "graph_remaining graph_A graph_B path_name s =
     (case map_of (paths graph_A) path_name of None \<Rightarrow> 0 | Some path_A \<Rightarrow> length path_A - ci s)
   + (case map_of (paths graph_B) path_name of None \<Rightarrow> 0 | Some path_B \<Rightarrow> length path_B - cj s)"

function graph_co_traversal ::
  "graph \<Rightarrow> graph \<Rightarrow> string \<Rightarrow> event cursor \<Rightarrow> error + event cursor" where
  "graph_co_traversal graph_A graph_B path_name s =
     (case graph_loop_cond graph_A graph_B path_name s of
        Inl e \<Rightarrow> Inl e
      | Inr c \<Rightarrow>
          if c then
            (case graph_loop_body graph_A graph_B path_name s of
               Inl e \<Rightarrow> Inl e
             | Inr s' \<Rightarrow> graph_co_traversal graph_A graph_B path_name s')
          else Inr s)"
  by pat_completeness auto
termination
  by (relation "measure (\<lambda>(graph_A, graph_B, path_name, s). graph_remaining graph_A graph_B path_name s)")
    (auto simp: graph_loop_cond_def graph_loop_body_def graph_remaining_def Let_def
      split: option.splits if_splits)

declare graph_co_traversal.simps [simp del]

text \<open>
  The result at graph level: the code turns the two sets of events into lists of
  lists, in the iteration order of the sets, which Python leaves open; the model
  keeps the sets.
\<close>

record graph_edition =
  ge_merges :: "event set"
  ge_splits :: "event set"

text \<open>The paths of both graphs, \<^verbatim>\<open>set(graph_A.paths.keys()).intersection(set(graph_B.paths.keys()))\<close>.\<close>

definition path_intersect :: "graph \<Rightarrow> graph \<Rightarrow> string list" where
  "path_intersect graph_A graph_B =
     filter (\<lambda>name. name \<in> set (map fst (paths graph_B))) (remdups (map fst (paths graph_A)))"

text \<open>
  \<^verbatim>\<open>graph_level_edition\<close>: the two sets are shared by all the paths; the cursors and
  positions start again at 0 for each path.
\<close>

fun graph_level_edition_loop ::
  "graph \<Rightarrow> graph \<Rightarrow> string list \<Rightarrow> event set \<Rightarrow> event set \<Rightarrow> error + graph_edition" where
  "graph_level_edition_loop graph_A graph_B [] merges_acc splits_acc =
     Inr \<lparr>ge_merges = merges_acc, ge_splits = splits_acc\<rparr>"
| "graph_level_edition_loop graph_A graph_B (path_name # rest) merges_acc splits_acc =
     (case graph_co_traversal graph_A graph_B path_name
             \<lparr>ci = 0, cj = 0, merges = merges_acc, splits = splits_acc,
              pos_A = 0, pos_B = 0, global_pos = 0\<rparr> of
        Inl e \<Rightarrow> Inl e
      | Inr s \<Rightarrow> graph_level_edition_loop graph_A graph_B rest (merges s) (splits s))"

text \<open>
  \<^verbatim>\<open>sequence_offsets\<close> is a method of the pgGraphs objects that fills the \<^verbatim>\<open>'PO'\<close>
  entries; it is a parameter here.
\<close>

definition graph_level_edition ::
  "(graph \<Rightarrow> graph) \<Rightarrow> graph \<Rightarrow> graph \<Rightarrow> error + graph_edition" where
  "graph_level_edition sequence_offsets graph_A graph_B =
     (let graph_A = sequence_offsets graph_A;
          graph_B = sequence_offsets graph_B
      in graph_level_edition_loop graph_A graph_B (path_intersect graph_A graph_B) {} {})"

definition edit_single_path_graph_level ::
  "string \<Rightarrow> graph \<Rightarrow> graph \<Rightarrow> error + (event set \<times> event set)" where
  "edit_single_path_graph_level path_name graph_A graph_B =
     (case graph_co_traversal graph_A graph_B path_name
             \<lparr>ci = 0, cj = 0, merges = {}, splits = {},
              pos_A = 0, pos_B = 0, global_pos = 0\<rparr> of
        Inl e \<Rightarrow> Inl e
      | Inr s \<Rightarrow> Inr (merges s, splits s))"

definition graph_level_edition_multiprocessing ::
  "(graph \<Rightarrow> graph) \<Rightarrow> graph \<Rightarrow> graph \<Rightarrow> error + graph_edition" where
  "graph_level_edition_multiprocessing sequence_offsets graph_A graph_B =
     (let graph_A = sequence_offsets graph_A;
          graph_B = sequence_offsets graph_B
      in case futures_collector
                (\<lambda>path_name. edit_single_path_graph_level path_name graph_A graph_B)
                (path_intersect graph_A graph_B) of
           Inl e \<Rightarrow> Inl e
         | Inr editions \<Rightarrow>
             Inr (fold (\<lambda>(ml, sl) r. \<lparr>ge_merges = ge_merges r \<union> ml, ge_splits = ge_splits r \<union> sl\<rparr>)
                    editions \<lparr>ge_merges = {}, ge_splits = {}\<rparr>))"

text \<open>
  \<^verbatim>\<open>perform_edition\<close>, from the two graphs once read: the value is what the function
  writes to \<^verbatim>\<open>output_path\<close>. \<^verbatim>\<open>selection\<close> is a list of path names or a boolean.
  When it is not a list and \<^verbatim>\<open>cores > 1\<close>, the code calls \<^verbatim>\<open>set(selection)\<close> on the
  boolean, which raises \<^verbatim>\<open>TypeError\<close>. \<^verbatim>\<open>set(selection)\<close> on a list keeps one copy of
  each name.
\<close>

datatype selection = Sel_list "string list" | Sel_bool bool

datatype results = Path_level "(string \<times> edition) list" | Graph_level graph_edition

definition perform_edition ::
  "(graph \<Rightarrow> graph) \<Rightarrow> graph \<Rightarrow> graph \<Rightarrow> bool \<Rightarrow> selection \<Rightarrow> int \<Rightarrow> error + results" where
  "perform_edition sequence_offsets graph_A graph_B graph_level selection cores =
     (if graph_level then
        (if cores > 1 then
           map_sum id Graph_level (graph_level_edition_multiprocessing sequence_offsets graph_A graph_B)
         else
           map_sum id Graph_level (graph_level_edition sequence_offsets graph_A graph_B))
      else
        (case selection of
           Sel_list sel \<Rightarrow>
             if \<not> (\<forall>x \<in> set sel. x \<in> set (path_intersect graph_A graph_B)) then Inl ValueError
             else if cores > 1 then
               map_sum id Path_level
                 (path_level_edition_multiprocessing graph_A graph_B (remdups sel))
             else
               map_sum id Path_level (path_level_edition graph_A graph_B (remdups sel))
         | Sel_bool b \<Rightarrow>
             if cores > 1 then Inl TypeError
             else
               map_sum id Path_level
                 (path_level_edition graph_A graph_B (path_intersect graph_A graph_B))))"

section \<open>Bubble detection (find\_bubbles.py)\<close>

text \<open>
  \<^verbatim>\<open>grouper(iterable, n=2, m=1)\<close> is
  \<^verbatim>\<open>[iterable[i:i+n] for i in range(0, len(iterable)-1, n-m)]\<close>. The model is for
  \<open>m < n\<close>, where the step of the range is positive; the code calls it with
  \<open>n = 2\<close> and the default \<open>m = 1\<close>, which gives the pairs of neighbours.
\<close>

definition grouper :: "'a list \<Rightarrow> nat \<Rightarrow> nat \<Rightarrow> 'a list list" where
  "grouper iterable n m =
     map (\<lambda>i. take n (drop i iterable))
       (filter (\<lambda>i. i mod (n - m) = 0) [0..<length iterable - 1])"

text \<open>\<^verbatim>\<open>elements[0]\<close> raises \<^verbatim>\<open>IndexError\<close> on an empty list.\<close>

definition common_members :: "string set list \<Rightarrow> error + string list" where
  "common_members elements =
     (case elements of
        [] \<Rightarrow> Inl IndexError
      | first_path # other_paths \<Rightarrow>
          Inr (sorted_list_of_set (fold (\<lambda>other acc. acc \<inter> other) other_paths first_path)))"

text \<open>\<^verbatim>\<open>list.index\<close>: the position of the first occurrence, \<^verbatim>\<open>ValueError\<close> when there is none.\<close>

fun list_index :: "'a list \<Rightarrow> 'a \<Rightarrow> error + nat" where
  "list_index [] x = Inl ValueError"
| "list_index (y # ys) x =
     (if y = x then Inr 0
      else (case list_index ys x of Inl e \<Rightarrow> Inl e | Inr i \<Rightarrow> Inr (Suc i)))"

text \<open>A list comprehension whose element expression may raise.\<close>

fun comprehension :: "('a \<Rightarrow> error + 'b) \<Rightarrow> 'a list \<Rightarrow> error + 'b list" where
  "comprehension f [] = Inr []"
| "comprehension f (x # xs) =
     (case f x of
        Inl e \<Rightarrow> Inl e
      | Inr y \<Rightarrow> (case comprehension f xs of Inl e \<Rightarrow> Inl e | Inr ys \<Rightarrow> Inr (y # ys)))"

text \<open>
  The slice \<^verbatim>\<open>xs[start:stop]\<close> for indices that are not negative, and
  \<^verbatim>\<open>chain_content[1:-1]\<close>, the chain without its first and last elements.
\<close>

definition slice :: "'a list \<Rightarrow> nat \<Rightarrow> nat \<Rightarrow> 'a list" where
  "slice xs start stop = take (stop - start) (drop start xs)"

definition inner :: "'a list \<Rightarrow> 'a list" where
  "inner chain_content = butlast (tl chain_content)"

text \<open>
  A bubble is a dict from path names to chains; \<^verbatim>\<open>bubbles\<close> is a list of them.
  The loop \<^verbatim>\<open>for i, (start, end) in enumerate(endpoints_indexes)\<close> stores one chain
  per pair of neighbouring endpoints. The chain is \<^verbatim>\<open>all_sets[path_name][start:end]\<close>
  in the fixed-point loop and \<^verbatim>\<open>all_maps[path_name][start:end+1]\<close> in the final
  extraction: \<open>chain\<close> is that expression.
\<close>

type_synonym 'a bubble = "(string \<times> 'a list) list"

fun store_chains ::
  "string \<Rightarrow> (nat \<Rightarrow> nat \<Rightarrow> 'a list) \<Rightarrow> (nat \<times> nat list) list \<Rightarrow> 'a bubble list
     \<Rightarrow> error + 'a bubble list" where
  "store_chains path_name chain [] bubbles = Inr bubbles"
| "store_chains path_name chain ((i, pair) # rest) bubbles =
     (case pair of
        [start, stop] \<Rightarrow>
          if i < length bubbles then
            store_chains path_name chain rest
              (bubbles[i := AList.update path_name (chain start stop) (bubbles ! i)])
          else Inl IndexError
      | _ \<Rightarrow> Inl ValueError)"

text \<open>
  The body of \<^verbatim>\<open>for path_name in gfa_graph.paths.keys()\<close> inside the \<^verbatim>\<open>while\<close>
  loop: the chains of the path are stored, then the embedded nodes of all the
  chains stored so far are collected and the endpoints among them are removed,
  before the next path is read. \<^verbatim>\<open>flatten\<close> of tharospytools concatenates the
  lists.
\<close>

definition embed_nodes :: "string bubble list \<Rightarrow> string set" where
  "embed_nodes bubbles =
     set (concat (map (\<lambda>(_, chain_content). inner chain_content) (concat bubbles)))"

fun scan_paths ::
  "(string \<times> string list) list \<Rightarrow> string list \<Rightarrow> string bubble list \<Rightarrow> string list
     \<Rightarrow> error + string bubble list \<times> string list" where
  "scan_paths all_sets [] bubbles bubbles_endpoints = Inr (bubbles, bubbles_endpoints)"
| "scan_paths all_sets (path_name # rest) bubbles bubbles_endpoints =
     (case map_of all_sets path_name of
        None \<Rightarrow> Inl KeyError
      | Some nodes \<Rightarrow>
     (case comprehension (list_index nodes) bubbles_endpoints of
        Inl e \<Rightarrow> Inl e
      | Inr indexes \<Rightarrow>
     (case store_chains path_name (slice nodes) (enumerate 0 (grouper indexes 2 1)) bubbles of
        Inl e \<Rightarrow> Inl e
      | Inr bubbles' \<Rightarrow>
          scan_paths all_sets rest bubbles'
            (filter (\<lambda>endpoint. endpoint \<notin> embed_nodes bubbles') bubbles_endpoints))))"

text \<open>One iteration of the \<^verbatim>\<open>while\<close> loop, from the endpoints to the endpoints.\<close>

definition iteration ::
  "(string \<times> string list) list \<Rightarrow> string list \<Rightarrow> string list \<Rightarrow> error + string list" where
  "iteration all_sets path_names bubbles_endpoints =
     (case scan_paths all_sets path_names
             (replicate (length bubbles_endpoints - 1) []) bubbles_endpoints of
        Inl e \<Rightarrow> Inl e
      | Inr (bubbles, endpoints) \<Rightarrow> Inr endpoints)"

text \<open>
  The \<^verbatim>\<open>while\<close> loop: it runs as long as the number of endpoints differs from
  \<^verbatim>\<open>convergence\<close>, the number at the start of the previous iteration (0 at first).
\<close>

function fixed_point ::
  "(string \<times> string list) list \<Rightarrow> string list \<Rightarrow> string list \<Rightarrow> nat \<Rightarrow> error + string list" where
  "fixed_point all_sets path_names bubbles_endpoints convergence =
     (if length bubbles_endpoints \<noteq> convergence then
        (case iteration all_sets path_names bubbles_endpoints of
           Inl e \<Rightarrow> Inl e
         | Inr endpoints \<Rightarrow>
             fixed_point all_sets path_names endpoints (length bubbles_endpoints))
      else Inr bubbles_endpoints)"
  by pat_completeness auto
termination
proof -
  have scan: "scan_paths a ps b e = Inr r \<Longrightarrow> length (snd r) \<le> length e" for a ps b e r
  proof (induction ps arbitrary: b e)
    case Nil
    then show ?case by auto
  next
    case (Cons p ps)
    from Cons.prems obtain b' where
      "scan_paths a ps b' (filter (\<lambda>endpoint. endpoint \<notin> embed_nodes b') e) = Inr r"
      by (auto split: option.splits sum.splits)
    from Cons.IH [OF this] show ?case
      by (meson le_trans length_filter_le)
  qed
  have iter: "iteration a ps e = Inr e' \<Longrightarrow> length e' \<le> length e" for a ps e e'
    using scan [of a ps "replicate (length e - 1) []" e]
    by (auto simp: iteration_def split: sum.splits)
  show ?thesis
    by (relation "measure (\<lambda>(a, ps, e, c). 2 * length e + (if length e \<noteq> c then 1 else 0))")
      (auto dest: iter)
qed

declare fixed_point.simps [simp del]

text \<open>
  The same loop with a bound on the number of iterations: \<open>None\<close> when the loop has
  not ended after that many.
\<close>

fun fixed_point_within ::
  "nat \<Rightarrow> (string \<times> string list) list \<Rightarrow> string list \<Rightarrow> string list \<Rightarrow> nat
     \<Rightarrow> (error + string list) option" where
  "fixed_point_within n all_sets path_names bubbles_endpoints convergence =
     (if length bubbles_endpoints \<noteq> convergence then
        (case n of
           0 \<Rightarrow> None
         | Suc k \<Rightarrow>
             (case iteration all_sets path_names bubbles_endpoints of
                Inl e \<Rightarrow> Some (Inl e)
              | Inr endpoints \<Rightarrow>
                  fixed_point_within k all_sets path_names endpoints (length bubbles_endpoints)))
      else Some (Inr bubbles_endpoints))"

declare fixed_point_within.simps [simp del]

text \<open>
  The first endpoints: the names in all the paths, sorted as strings by
  \<^verbatim>\<open>common_members\<close>, then by \<^verbatim>\<open>sorted(..., key=int)\<close>, which is stable. Python's
  \<^verbatim>\<open>int\<close> on strings is the parameter \<open>py_int\<close>, \<open>None\<close> where it raises
  \<^verbatim>\<open>ValueError\<close>.
\<close>

definition initial_endpoints ::
  "(string \<Rightarrow> int option) \<Rightarrow> (string \<times> string list) list \<Rightarrow> error + string list" where
  "initial_endpoints py_int all_sets =
     (case common_members (map (\<lambda>(_, x). set x) all_sets) of
        Inl e \<Rightarrow> Inl e
      | Inr members \<Rightarrow>
          if list_ex (\<lambda>m. py_int m = None) members then Inl ValueError
          else Inr (sort_key (\<lambda>m. the (py_int m)) members))"

text \<open>The final extraction, lines 81 to 96: the chains keep the orientations and include both endpoints.\<close>

fun extract_paths ::
  "(string \<times> string list) list \<Rightarrow> (string \<times> (string \<times> orientation) list) list \<Rightarrow> string list
     \<Rightarrow> string list \<Rightarrow> (string \<times> orientation) bubble list
     \<Rightarrow> error + (string \<times> orientation) bubble list" where
  "extract_paths all_sets all_maps [] bubbles_endpoints oriented_bubbles = Inr oriented_bubbles"
| "extract_paths all_sets all_maps (path_name # rest) bubbles_endpoints oriented_bubbles =
     (case map_of all_sets path_name of
        None \<Rightarrow> Inl KeyError
      | Some nodes \<Rightarrow>
     (case comprehension (list_index nodes) bubbles_endpoints of
        Inl e \<Rightarrow> Inl e
      | Inr indexes \<Rightarrow>
     (case map_of all_maps path_name of
        None \<Rightarrow> Inl KeyError
      | Some path \<Rightarrow>
     (case store_chains path_name (\<lambda>start stop. slice path start (stop + 1))
             (enumerate 0 (grouper indexes 2 1)) oriented_bubbles of
        Inl e \<Rightarrow> Inl e
      | Inr oriented_bubbles' \<Rightarrow>
          extract_paths all_sets all_maps rest bubbles_endpoints oriented_bubbles'))))"

definition all_sets_of :: "graph \<Rightarrow> (string \<times> string list) list" where
  "all_sets_of gfa_graph = map (\<lambda>(path_name, path). (path_name, map fst path)) (paths gfa_graph)"

text \<open>The endpoints at the end of the \<^verbatim>\<open>while\<close> loop.\<close>

definition final_endpoints :: "(string \<Rightarrow> int option) \<Rightarrow> graph \<Rightarrow> error + string list" where
  "final_endpoints py_int gfa_graph =
     (case initial_endpoints py_int (all_sets_of gfa_graph) of
        Inl e \<Rightarrow> Inl e
      | Inr bubbles_endpoints \<Rightarrow>
          fixed_point (all_sets_of gfa_graph) (map fst (paths gfa_graph)) bubbles_endpoints 0)"

definition bubble_caller ::
  "(string \<Rightarrow> int option) \<Rightarrow> graph \<Rightarrow> error + (string \<times> orientation) bubble list" where
  "bubble_caller py_int gfa_graph =
     (case final_endpoints py_int gfa_graph of
        Inl e \<Rightarrow> Inl e
      | Inr bubbles_endpoints \<Rightarrow>
          extract_paths (all_sets_of gfa_graph) (paths gfa_graph) (map fst (paths gfa_graph))
            bubbles_endpoints (replicate (length bubbles_endpoints - 1) []))"


text \<open>
  Python's \<^verbatim>\<open>int\<close> on a string of ASCII digits, for the examples, whose node names
  are such strings; \<open>None\<close> on any other string.
\<close>

definition decimal :: "string \<Rightarrow> int option" where
  "decimal s =
     (if s \<noteq> [] \<and> list_all (\<lambda>c. CHR ''0'' \<le> c \<and> c \<le> CHR ''9'') s
      then Some (fold (\<lambda>c n. 10 * n + (int (of_char c) - 48)) s 0)
      else None)"

text \<open>
  For the properties of the result: the chains of one path in a list of bubbles,
  \<^verbatim>\<open>[bubble[path_name] for bubble in bubbles]\<close>, \<open>None\<close> when a bubble has no
  chain for the path; and the chains joined in order, the endpoint that two
  neighbouring chains share being kept once.
\<close>

definition path_chains :: "string \<Rightarrow> 'a bubble list \<Rightarrow> 'a list list option" where
  "path_chains path_name bubbles = those (map (\<lambda>bubble. map_of bubble path_name) bubbles)"

fun join_chains :: "'a list list \<Rightarrow> 'a list" where
  "join_chains [] = []"
| "join_chains (chain # rest) = chain @ concat (map tl rest)"

section \<open>Segmentations and example graphs\<close>

text \<open>
  The segmentation of a path: the ordered list of the lengths of its segments,
  when the path and all of its segments exist in the graph.
\<close>

definition segmentation :: "graph \<Rightarrow> string \<Rightarrow> int list option" where
  "segmentation g path_name =
     (case map_of (paths g) path_name of
        None \<Rightarrow> None
      | Some path \<Rightarrow> those (map (\<lambda>node. map_option seg_length (segments g (fst node))) path))"

definition swap_cursor :: "int cursor \<Rightarrow> int cursor" where
  "swap_cursor s = \<lparr>ci = cj s, cj = ci s, merges = splits s, splits = merges s,
                    pos_A = pos_B s, pos_B = pos_A s, global_pos = global_pos s\<rparr>"

definition swap_edition :: "edition \<Rightarrow> edition" where
  "swap_edition e = \<lparr>ed_merges = ed_splits e, ed_splits = ed_merges e\<rparr>"

text \<open>A graph with the single path \<^verbatim>\<open>p\<close>, whose segments have the given names and lengths.\<close>

definition one_path_graph :: "(string \<times> int) list \<Rightarrow> graph" where
  "one_path_graph nodes =
     \<lparr>segments = map_of (map (\<lambda>(name, len). (name, \<lparr>seg_length = len, seq = [], PO = []\<rparr>)) nodes),
      paths = [(''p'', map (\<lambda>(name, len). (name, Forward)) nodes)]\<rparr>"

definition g55 :: graph where
  "g55 = one_path_graph [(''1'', 5), (''2'', 5)]"

definition g37 :: graph where
  "g37 = one_path_graph [(''1'', 3), (''2'', 7)]"

definition g5 :: graph where
  "g5 = one_path_graph [(''1'', 5)]"

definition g3 :: graph where
  "g3 = one_path_graph [(''1'', 3)]"

text \<open>A graph given by its paths, every node read forwards; the segments play no part in the bubbles.\<close>

definition path_graph :: "(string \<times> string list) list \<Rightarrow> graph" where
  "path_graph ps =
     \<lparr>segments = Map.empty,
      paths = map (\<lambda>(name, nodes). (name, map (\<lambda>n. (n, Forward)) nodes)) ps\<rparr>"

definition g123 :: graph where
  "g123 = path_graph [(''p'', [''1'', ''2'', ''3''])]"


definition g13294 :: graph where
  "g13294 = path_graph [(''p'', [''1'', ''3'', ''2'', ''9'', ''4''])]"

text \<open>
  Two paths that share the nodes 1, 3 and 4: \<^verbatim>\<open>p\<close> has a node before the first of
  them and a node after the last.
\<close>

definition g_pq :: graph where
  "g_pq = path_graph [(''p'', [''7'', ''1'', ''2'', ''3'', ''4'', ''5'']),
                      (''q'', [''1'', ''6'', ''3'', ''4''])]"

section \<open>Properties of the co-traversal\<close>

text \<open>
  C1. One iteration of the loop, with both cursors in range and both current
  segments known: \<open>global_pos\<close> becomes the smaller of the two next boundaries
  \<open>end_A = pos_A + length(A[i])\<close> and \<open>end_B = pos_B + length(B[j])\<close>. When only
  \<open>end_A\<close> is reached, a split is recorded there, \<open>pos_A\<close> moves to \<open>end_A\<close> and
  only \<open>i\<close> is incremented; when only \<open>end_B\<close> is reached, a merge is recorded,
  \<open>pos_B\<close> moves to \<open>end_B\<close> and only \<open>j\<close> is incremented; when both are reached
  nothing is recorded and both cursors are incremented. Every other variable is
  left as it was.
\<close>

theorem loop_body_classifies:
  assumes "map_of (paths graph_A) path_name = Some path_A"
    and "map_of (paths graph_B) path_name = Some path_B"
    and "ci s < length path_A" and "cj s < length path_B"
    and "segments graph_A (fst (path_A ! ci s)) = Some seg_A"
    and "segments graph_B (fst (path_B ! cj s)) = Some seg_B"
  shows "let end_A = pos_A s + seg_length seg_A;
             end_B = pos_B s + seg_length seg_B;
             gp = min end_A end_B
         in (gp = end_A \<and> gp \<noteq> end_B \<longrightarrow>
               loop_body graph_A graph_B path_name s =
                 Inr (s\<lparr>global_pos := gp, splits := insert gp (splits s),
                        pos_A := end_A, ci := ci s + 1\<rparr>))
          \<and> (gp \<noteq> end_A \<and> gp = end_B \<longrightarrow>
               loop_body graph_A graph_B path_name s =
                 Inr (s\<lparr>global_pos := gp, merges := insert gp (merges s),
                        pos_B := end_B, cj := cj s + 1\<rparr>))
          \<and> (gp = end_A \<and> gp = end_B \<longrightarrow>
               loop_body graph_A graph_B path_name s =
                 Inr (s\<lparr>global_pos := gp, pos_A := end_A, pos_B := end_B,
                        ci := ci s + 1, cj := cj s + 1\<rparr>))"
  using assms by (auto simp: loop_body_def Let_def min_def add.commute)

theorem loop_body_classifies_witness:
  "map_of (paths g55) ''p'' = Some [(''1'', Forward), (''2'', Forward)]
   \<and> map_of (paths g37) ''p'' = Some [(''1'', Forward), (''2'', Forward)]
   \<and> segments g55 ''1'' = Some \<lparr>seg_length = 5, seq = [], PO = []\<rparr>
   \<and> segments g37 ''1'' = Some \<lparr>seg_length = 3, seq = [], PO = []\<rparr>
   \<and> loop_body g55 g37 ''p'' init_cursor =
       Inr (init_cursor\<lparr>global_pos := 3, merges := {3}, pos_B := 3, cj := 1\<rparr>)"
  using loop_body_classifies [of g55 "''p''" "[(''1'', Forward), (''2'', Forward)]" g37
      "[(''1'', Forward), (''2'', Forward)]" init_cursor
      "\<lparr>seg_length = 5, seq = [], PO = []\<rparr>" "\<lparr>seg_length = 3, seq = [], PO = []\<rparr>"]
  by (simp add: g55_def g37_def one_path_graph_def init_cursor_def Let_def)

lemma those_map_nth:
  "those (map f xs) = Some ys \<Longrightarrow> length ys = length xs \<and> (\<forall>i<length xs. f (xs ! i) = Some (ys ! i))"
proof (induction xs arbitrary: ys)
  case Nil
  then show ?case by simp
next
  case (Cons x xs)
  then obtain y zs where y: "f x = Some y" and zs: "those (map f xs) = Some zs" and ys: "ys = y # zs"
    by (auto split: option.splits)
  from Cons.IH [OF zs] y ys show ?case
    by (auto simp: nth_Cons split: nat.splits)
qed

lemma segmentation_lookup:
  assumes "segmentation g p = Some S"
  shows "\<exists>path. map_of (paths g) p = Some path \<and> length path = length S
           \<and> (\<forall>i<length S. \<exists>sg. segments g (fst (path ! i)) = Some sg \<and> seg_length sg = S ! i)"
proof -
  from assms obtain path where path: "map_of (paths g) p = Some path"
    and th: "those (map (\<lambda>node. map_option seg_length (segments g (fst node))) path) = Some S"
    by (auto simp: segmentation_def split: option.splits)
  from those_map_nth [OF th] have len: "length S = length path"
    and nth: "\<forall>i<length path. map_option seg_length (segments g (fst (path ! i))) = Some (S ! i)"
    by auto
  from nth len have "\<forall>i<length S. \<exists>sg. segments g (fst (path ! i)) = Some sg \<and> seg_length sg = S ! i"
    by auto
  with path len show ?thesis by auto
qed

lemma loop_cond_present:
  assumes "map_of (paths gA) p = Some pa" and "map_of (paths gB) p = Some pb"
  shows "loop_cond gA gB p s = Inr (ci s < length pa \<and> cj s < length pb)"
  using assms by (simp add: loop_cond_def)

lemma loop_body_swap:
  "loop_body gB gA p (swap_cursor s) =
     (case loop_body gA gB p s of Inl e \<Rightarrow> Inl e | Inr t \<Rightarrow> Inr (swap_cursor t))"
  by (auto simp: loop_body_def swap_cursor_def Let_def min_def split: option.splits)

lemma co_traversal_swap:
  assumes "map_of (paths gA) p = Some pa" and "map_of (paths gB) p = Some pb"
  shows "co_traversal gB gA p (swap_cursor s) =
     (case co_traversal gA gB p s of Inl e \<Rightarrow> Inl e | Inr t \<Rightarrow> Inr (swap_cursor t))"
  using assms
proof (induction gA gB p s rule: co_traversal.induct)
  case (1 gA gB p s)
  have c1: "loop_cond gA gB p s = Inr (ci s < length pa \<and> cj s < length pb)"
    using "1.prems" by (simp add: loop_cond_present)
  have c2: "loop_cond gB gA p (swap_cursor s) = Inr (ci s < length pa \<and> cj s < length pb)"
    using "1.prems" by (auto simp: loop_cond_def swap_cursor_def)
  show ?case
  proof (cases "ci s < length pa \<and> cj s < length pb")
    case False
    with c1 c2 show ?thesis
      by (simp add: co_traversal.simps [of gA gB p s] co_traversal.simps [of gB gA p "swap_cursor s"])
  next
    case True
    show ?thesis
    proof (cases "loop_body gA gB p s")
      case (Inl e)
      with c1 c2 True loop_body_swap [of gB gA p s] show ?thesis
        by (simp add: co_traversal.simps [of gA gB p s] co_traversal.simps [of gB gA p "swap_cursor s"])
    next
      case (Inr s')
      from "1.IH" [OF c1 _ Inr "1.prems"] True
      have "co_traversal gB gA p (swap_cursor s') =
        (case co_traversal gA gB p s' of Inl e \<Rightarrow> Inl e | Inr t \<Rightarrow> Inr (swap_cursor t))"
        by simp
      with Inr c1 c2 True loop_body_swap [of gB gA p s] show ?thesis
        by (simp add: co_traversal.simps [of gA gB p s] co_traversal.simps [of gB gA p "swap_cursor s"])
    qed
  qed
qed

lemma edition_of_swap: "edition_of (swap_cursor s) = swap_edition (edition_of s)"
  by (simp add: edition_of_def swap_cursor_def swap_edition_def)

lemma swap_init: "swap_cursor init_cursor = init_cursor"
  by (simp add: swap_cursor_def init_cursor_def)

lemma update_map_swap:
  "AList.update k (f v) (map (\<lambda>(p, e). (p, f e)) al) = map (\<lambda>(p, e). (p, f e)) (AList.update k v al)"
  by (induction al) auto

lemma path_level_edition_loop_swap:
  assumes "set sel \<subseteq> fst ` set (paths gA) \<inter> fst ` set (paths gB)"
  shows "path_level_edition_loop gB gA sel (map (\<lambda>(p, e). (p, swap_edition e)) acc)
       = (case path_level_edition_loop gA gB sel acc of
            Inl e \<Rightarrow> Inl e
          | Inr res \<Rightarrow> Inr (map (\<lambda>(p, e). (p, swap_edition e)) res))"
  using assms
proof (induction sel arbitrary: acc)
  case Nil
  then show ?case by simp
next
  case (Cons p sel)
  from Cons.prems have "map_of (paths gA) p \<noteq> None" and "map_of (paths gB) p \<noteq> None"
    by (simp_all add: map_of_eq_None_iff)
  then obtain pa pb where pa: "map_of (paths gA) p = Some pa" and pb: "map_of (paths gB) p = Some pb"
    by auto
  have sw: "co_traversal gB gA p init_cursor =
      (case co_traversal gA gB p init_cursor of Inl e \<Rightarrow> Inl e | Inr t \<Rightarrow> Inr (swap_cursor t))"
    using co_traversal_swap [OF pa pb, of init_cursor] by (simp add: swap_init)
  show ?case
  proof (cases "co_traversal gA gB p init_cursor")
    case (Inl e)
    with sw show ?thesis by simp
  next
    case (Inr s)
    with sw have "co_traversal gB gA p init_cursor = Inr (swap_cursor s)" by simp
    with Inr Cons.IH [of "AList.update p (edition_of s) acc"] Cons.prems show ?thesis
      by (simp add: edition_of_swap update_map_swap)
  qed
qed

text \<open>
  C3. When every selected path is in both graphs, swapping the two graphs swaps
  splits and merges: \<^verbatim>\<open>path_level_edition\<close> on \<open>(B, A)\<close> fails exactly when it fails on
  \<open>(A, B)\<close>, with the same exception, and otherwise returns for each path the
  result of \<open>(A, B)\<close> with the two lists exchanged. No condition on the lengths is
  needed.
\<close>

theorem swapping_graphs_swaps_splits_and_merges:
  assumes "set selected_paths \<subseteq> fst ` set (paths graph_A) \<inter> fst ` set (paths graph_B)"
  shows "path_level_edition graph_B graph_A selected_paths =
         (case path_level_edition graph_A graph_B selected_paths of
            Inl e \<Rightarrow> Inl e
          | Inr edition_results \<Rightarrow>
              Inr (map (\<lambda>(path_name, e).
                     (path_name, \<lparr>ed_merges = ed_splits e, ed_splits = ed_merges e\<rparr>))
                   edition_results))"
  using path_level_edition_loop_swap [OF assms, of "[]"]
  by (simp add: path_level_edition_def swap_edition_def split: sum.splits)

theorem swapping_graphs_swaps_splits_and_merges_witness:
  "set [''p''] \<subseteq> fst ` set (paths g55) \<inter> fst ` set (paths g37)
   \<and> path_level_edition g55 g37 [''p''] = Inr [(''p'', \<lparr>ed_merges = [3], ed_splits = [5]\<rparr>)]
   \<and> path_level_edition g37 g55 [''p''] = Inr [(''p'', \<lparr>ed_merges = [5], ed_splits = [3]\<rparr>)]"
proof -
  have sel: "set [''p''] \<subseteq> fst ` set (paths g55) \<inter> fst ` set (paths g37)"
    by (simp add: g55_def g37_def one_path_graph_def)
  have ab: "path_level_edition g55 g37 [''p''] = Inr [(''p'', \<lparr>ed_merges = [3], ed_splits = [5]\<rparr>)]"
    by (simp add: path_level_edition_def co_traversal.simps loop_cond_def loop_body_def
        g55_def g37_def one_path_graph_def init_cursor_def edition_of_def)
  from swapping_graphs_swaps_splits_and_merges [OF sel] ab sel show ?thesis
    by simp
qed

text \<open>
  C9. The branch \<^verbatim>\<open>case (False, False): raise ValueError()\<close> is dead code, on
  every input: the new \<open>global_pos\<close> is the smaller of \<open>pos_A + length_A\<close> and
  \<open>pos_B + length_B\<close>, so one of the two tests of the \<^verbatim>\<open>match\<close> holds. Neither one
  iteration, nor the loop from any state, nor the function for one path, nor
  \<^verbatim>\<open>path_level_edition\<close> over any selection ends with a \<open>ValueError\<close>.
\<close>

theorem neither_branch_unreachable:
  "loop_body graph_A graph_B path_name s \<noteq> Inl ValueError
   \<and> co_traversal graph_A graph_B path_name s \<noteq> Inl ValueError
   \<and> edit_single_path_path_level path_name graph_A graph_B \<noteq> Inl ValueError
   \<and> path_level_edition graph_A graph_B selected_paths \<noteq> Inl ValueError"
proof -
  have body: "loop_body gA gB p t \<noteq> Inl ValueError" for gA gB p t
    by (auto simp: loop_body_def Let_def min_def split: option.splits)
  have loop: "co_traversal gA gB p t \<noteq> Inl ValueError" for gA gB p t
  proof (induction gA gB p t rule: co_traversal.induct)
    case (1 gA gB p t)
    show ?case
    proof (cases "loop_cond gA gB p t")
      case (Inl e)
      then have "e = KeyError"
        by (auto simp: loop_cond_def split: option.splits if_splits)
      with Inl show ?thesis by (simp add: co_traversal.simps [of gA gB p t])
    next
      case (Inr c)
      show ?thesis
      proof (cases c)
        case False
        with Inr show ?thesis by (simp add: co_traversal.simps [of gA gB p t])
      next
        case True
        show ?thesis
        proof (cases "loop_body gA gB p t")
          case (Inl e)
          with body [of gA gB p t] have "e \<noteq> ValueError" by auto
          with Inl Inr True show ?thesis by (simp add: co_traversal.simps [of gA gB p t])
        next
          case (Inr t')
          with \<open>loop_cond gA gB p t = Inr c\<close> True "1.IH" [of c t'] show ?thesis
            by (simp add: co_traversal.simps [of gA gB p t])
        qed
      qed
    qed
  qed
  have paths: "path_level_edition_loop graph_A graph_B sel acc \<noteq> Inl ValueError" for sel acc
  proof (induction sel arbitrary: acc)
    case Nil
    show ?case by simp
  next
    case (Cons p sel)
    with loop [of graph_A graph_B p init_cursor] show ?case
      by (auto split: sum.splits)
  qed
  show ?thesis
    using body [of graph_A graph_B path_name s] loop [of graph_A graph_B path_name s]
      loop [of graph_A graph_B path_name init_cursor] paths [of selected_paths "[]"]
    by (auto simp: edit_single_path_path_level_def path_level_edition_def split: sum.splits)
qed

lemma loop_body_defined:
  assumes "segmentation gA p = Some SA" and "segmentation gB p = Some SB"
    and "ci s < length SA" and "cj s < length SB"
  shows "\<exists>t. loop_body gA gB p s = Inr t"
proof -
  from assms(1) obtain pa where pa: "map_of (paths gA) p = Some pa" "length pa = length SA"
    and sa: "\<forall>i<length SA. \<exists>sg. segments gA (fst (pa ! i)) = Some sg \<and> seg_length sg = SA ! i"
    using segmentation_lookup by blast
  from assms(2) obtain pb where pb: "map_of (paths gB) p = Some pb" "length pb = length SB"
    and sb: "\<forall>i<length SB. \<exists>sg. segments gB (fst (pb ! i)) = Some sg \<and> seg_length sg = SB ! i"
    using segmentation_lookup by blast
  from sa assms(3) obtain ga where ga: "segments gA (fst (pa ! ci s)) = Some ga" by auto
  from sb assms(4) obtain gb where gb: "segments gB (fst (pb ! cj s)) = Some gb" by auto
  from pa pb ga gb assms(3,4) show ?thesis
    by (auto simp: loop_body_def Let_def min_def)
qed

lemma co_traversal_returns:
  assumes "segmentation gA p = Some SA" and "segmentation gB p = Some SB"
  shows "\<exists>t. co_traversal gA gB p s = Inr t"
  using assms
proof (induction gA gB p s rule: co_traversal.induct)
  case (1 gA gB p s)
  from "1.prems"(1) obtain pa where pa: "map_of (paths gA) p = Some pa" "length pa = length SA"
    using segmentation_lookup by blast
  from "1.prems"(2) obtain pb where pb: "map_of (paths gB) p = Some pb" "length pb = length SB"
    using segmentation_lookup by blast
  have c: "loop_cond gA gB p s = Inr (ci s < length SA \<and> cj s < length SB)"
    using pa pb by (simp add: loop_cond_present)
  show ?case
  proof (cases "ci s < length SA \<and> cj s < length SB")
    case False
    with c show ?thesis by (simp add: co_traversal.simps [of gA gB p s])
  next
    case True
    with loop_body_defined [OF "1.prems"] obtain t where t: "loop_body gA gB p s = Inr t"
      by auto
    from "1.IH" [OF c _ t "1.prems"] True
    obtain u where "co_traversal gA gB p t = Inr u" by auto
    with c True t show ?thesis by (simp add: co_traversal.simps [of gA gB p s])
  qed
qed

lemma co_traversal_identical:
  assumes "segmentation gA p = Some S" and "segmentation gB p = Some S"
    and "ci s = cj s" and "pos_A s = pos_B s"
  shows "\<exists>t. co_traversal gA gB p s = Inr t \<and> merges t = merges s \<and> splits t = splits s"
  using assms
proof (induction gA gB p s rule: co_traversal.induct)
  case (1 gA gB p s)
  from "1.prems"(1) obtain pa where pa: "map_of (paths gA) p = Some pa" "length pa = length S"
    and sa: "\<forall>i<length S. \<exists>sg. segments gA (fst (pa ! i)) = Some sg \<and> seg_length sg = S ! i"
    using segmentation_lookup by blast
  from "1.prems"(2) obtain pb where pb: "map_of (paths gB) p = Some pb" "length pb = length S"
    and sb: "\<forall>i<length S. \<exists>sg. segments gB (fst (pb ! i)) = Some sg \<and> seg_length sg = S ! i"
    using segmentation_lookup by blast
  have c: "loop_cond gA gB p s = Inr (ci s < length S)"
    using pa pb "1.prems"(3) by (simp add: loop_cond_present)
  show ?case
  proof (cases "ci s < length S")
    case False
    with c show ?thesis by (simp add: co_traversal.simps [of gA gB p s])
  next
    case True
    from sa True obtain ga where ga: "segments gA (fst (pa ! ci s)) = Some ga" "seg_length ga = S ! ci s"
      by auto
    from sb True "1.prems"(3) obtain gb where gb: "segments gB (fst (pb ! cj s)) = Some gb" "seg_length gb = S ! ci s"
      by auto
    define t where "t = s\<lparr>global_pos := pos_A s + S ! ci s, pos_A := pos_A s + S ! ci s,
        pos_B := pos_B s + S ! ci s, ci := ci s + 1, cj := cj s + 1\<rparr>"
    have t: "loop_body gA gB p s = Inr t"
      using pa pb ga gb True "1.prems"(3,4) by (simp add: loop_body_def Let_def t_def)
    have "ci t = cj t" "pos_A t = pos_B t" using "1.prems"(3,4) by (simp_all add: t_def)
    from "1.IH" [OF c _ t "1.prems"(1,2) this] True
    obtain u where "co_traversal gA gB p t = Inr u" "merges u = merges t" "splits u = splits t"
      by auto
    with c True t show ?thesis by (simp add: co_traversal.simps [of gA gB p s] t_def)
  qed
qed

text \<open>
  C4. A path whose two segmentations are the same ordered list of lengths (in
  particular a graph compared with itself) needs no edit: the result for the path
  has no merge and no split.
\<close>

theorem identical_segmentations_need_no_edit:
  assumes "segmentation graph_A path_name = Some S"
    and "segmentation graph_B path_name = Some S"
  shows "edit_single_path_path_level path_name graph_A graph_B = Inr \<lparr>ed_merges = [], ed_splits = []\<rparr>
       \<and> path_level_edition graph_A graph_B [path_name] =
           Inr [(path_name, \<lparr>ed_merges = [], ed_splits = []\<rparr>)]"
proof -
  from co_traversal_identical [OF assms, of init_cursor]
  obtain t where "co_traversal graph_A graph_B path_name init_cursor = Inr t"
    "merges t = {}" "splits t = {}"
    by (auto simp: init_cursor_def)
  then show ?thesis
    by (simp add: edit_single_path_path_level_def path_level_edition_def edition_of_def)
qed

theorem identical_segmentations_need_no_edit_witness:
  "segmentation g55 ''p'' = Some [5, 5]
   \<and> edit_single_path_path_level ''p'' g55 g55 = Inr \<lparr>ed_merges = [], ed_splits = []\<rparr>
   \<and> path_level_edition g55 g55 [''p''] = Inr [(''p'', \<lparr>ed_merges = [], ed_splits = []\<rparr>)]"
proof -
  have s: "segmentation g55 ''p'' = Some [5, 5]"
    by (simp add: segmentation_def g55_def one_path_graph_def)
  from identical_segmentations_need_no_edit [OF s s] s show ?thesis by simp
qed

text \<open>
  With segments that are not empty, the loop visits the segment ends of the two
  paths in increasing order, until one of the paths is finished: what it records
  from a state on are the segment ends left in one path and not in the other, up
  to the smaller of the two totals.
\<close>

lemma breakpoints_bounds:
  "\<forall>l \<in> set S. 0 < l \<Longrightarrow> x \<in> set (breakpoints pos S) \<Longrightarrow> pos < x \<and> x \<le> pos + sum_list S"
proof (induction S arbitrary: pos)
  case Nil
  then show ?case by simp
next
  case (Cons l S)
  from Cons.prems(1) have l: "0 < l" and S: "\<forall>l \<in> set S. 0 < l" by simp_all
  from S have "0 \<le> sum_list S" by (simp add: sum_list_nonneg less_imp_le)
  with Cons.IH [OF S, of "pos + l"] Cons.prems(2) l show ?case by auto
qed

lemma breakpoints_sorted:
  "\<forall>l \<in> set S. 0 < l \<Longrightarrow> sorted (breakpoints pos S) \<and> distinct (breakpoints pos S)"
proof (induction S arbitrary: pos)
  case Nil
  then show ?case by simp
next
  case (Cons l S)
  from Cons.prems have S: "\<forall>l \<in> set S. 0 < l" by simp
  from breakpoints_bounds [OF S, of _ "pos + l"] Cons.IH [OF S, of "pos + l"]
  show ?case by (auto simp: less_imp_le)
qed

lemma breakpoints_end: "S \<noteq> [] \<Longrightarrow> pos + sum_list S \<in> set (breakpoints pos S)"
proof (induction S arbitrary: pos)
  case Nil
  then show ?case by simp
next
  case (Cons l S)
  show ?case
  proof (cases "S = []")
    case True
    then show ?thesis by simp
  next
    case False
    from Cons.IH [OF False, of "pos + l"] show ?thesis by (simp add: add.assoc)
  qed
qed

lemma sorted_list_of_filter:
  assumes "sorted xs" and "distinct xs"
  shows "sorted_list_of_set {x \<in> set xs. P x} = filter P xs"
proof -
  have e: "{x \<in> set xs. P x} = set (filter P xs)" by auto
  from assms(1) have s: "sorted (filter P xs)" using sorted_filter [of "\<lambda>x. x" xs P] by simp
  from assms(2) have d: "distinct (filter P xs)" by simp
  show ?thesis unfolding e using s d by (rule sorted_list_of_set.idem_if_sorted_distinct)
qed

lemma loop_body_step:
  assumes "segmentation gA p = Some SA" and "segmentation gB p = Some SB"
    and "ci s < length SA" and "cj s < length SB"
  shows "loop_body gA gB p s =
    (let a = pos_A s + SA ! ci s; b = pos_B s + SB ! cj s in
     if a = b then
       Inr (s\<lparr>global_pos := a, pos_A := a, pos_B := b, ci := ci s + 1, cj := cj s + 1\<rparr>)
     else if a < b then
       Inr (s\<lparr>global_pos := a, splits := insert a (splits s), pos_A := a, ci := ci s + 1\<rparr>)
     else
       Inr (s\<lparr>global_pos := b, merges := insert b (merges s), pos_B := b, cj := cj s + 1\<rparr>))"
proof -
  from assms(1) obtain pa where pa: "map_of (paths gA) p = Some pa" "length pa = length SA"
    and sa: "\<forall>i<length SA. \<exists>sg. segments gA (fst (pa ! i)) = Some sg \<and> seg_length sg = SA ! i"
    using segmentation_lookup by blast
  from assms(2) obtain pb where pb: "map_of (paths gB) p = Some pb" "length pb = length SB"
    and sb: "\<forall>i<length SB. \<exists>sg. segments gB (fst (pb ! i)) = Some sg \<and> seg_length sg = SB ! i"
    using segmentation_lookup by blast
  from sa assms(3) obtain ga where ga: "segments gA (fst (pa ! ci s)) = Some ga"
    "seg_length ga = SA ! ci s" by auto
  from sb assms(4) obtain gb where gb: "segments gB (fst (pb ! cj s)) = Some gb"
    "seg_length gb = SB ! cj s" by auto
  from pa pb ga gb assms(3,4) show ?thesis
    by (auto simp: loop_body_def Let_def min_def add.commute)
qed

lemma co_traversal_breakpoints:
  assumes "segmentation gA p = Some SA" and "segmentation gB p = Some SB"
    and "\<forall>l \<in> set SA. 0 < l" and "\<forall>l \<in> set SB. 0 < l"
    and "\<forall>x \<in> set (breakpoints (pos_B s) (drop (cj s) SB)). pos_A s < x"
    and "\<forall>x \<in> set (breakpoints (pos_A s) (drop (ci s) SA)). pos_B s < x"
  shows "\<exists>t. co_traversal gA gB p s = Inr t
    \<and> merges t = merges s \<union>
        {x \<in> set (breakpoints (pos_B s) (drop (cj s) SB)).
           x \<le> min (pos_A s + sum_list (drop (ci s) SA)) (pos_B s + sum_list (drop (cj s) SB))
           \<and> x \<notin> set (breakpoints (pos_A s) (drop (ci s) SA))}
    \<and> splits t = splits s \<union>
        {x \<in> set (breakpoints (pos_A s) (drop (ci s) SA)).
           x \<le> min (pos_A s + sum_list (drop (ci s) SA)) (pos_B s + sum_list (drop (cj s) SB))
           \<and> x \<notin> set (breakpoints (pos_B s) (drop (cj s) SB))}"
  using assms
proof (induction gA gB p s rule: co_traversal.induct)
  case (1 gA gB p s)
  note segA = "1.prems"(1) and segB = "1.prems"(2)
    and posA = "1.prems"(3) and posB = "1.prems"(4)
    and invB = "1.prems"(5) and invA = "1.prems"(6)
  from segA obtain pa where pa: "map_of (paths gA) p = Some pa" "length pa = length SA"
    using segmentation_lookup by blast
  from segB obtain pb where pb: "map_of (paths gB) p = Some pb" "length pb = length SB"
    using segmentation_lookup by blast
  have c: "loop_cond gA gB p s = Inr (ci s < length SA \<and> cj s < length SB)"
    using pa pb by (simp add: loop_cond_present)
  let ?BA = "breakpoints (pos_A s) (drop (ci s) SA)"
  let ?BB = "breakpoints (pos_B s) (drop (cj s) SB)"
  let ?TA = "pos_A s + sum_list (drop (ci s) SA)"
  let ?TB = "pos_B s + sum_list (drop (cj s) SB)"
  have pdA: "\<forall>l \<in> set (drop n SA). 0 < l" for n using posA by (meson in_set_dropD)
  have pdB: "\<forall>l \<in> set (drop n SB). 0 < l" for n using posB by (meson in_set_dropD)
  show ?case
  proof (cases "ci s < length SA \<and> cj s < length SB")
    case False
    have r: "co_traversal gA gB p s = Inr s"
      using c False by (simp add: co_traversal.simps [of gA gB p s])
    have m: "{x \<in> set ?BB. x \<le> min ?TA ?TB \<and> x \<notin> set ?BA} = {}"
    proof (cases "ci s < length SA")
      case True
      with False have "drop (cj s) SB = []" by simp
      then show ?thesis by simp
    next
      case False
      then have "drop (ci s) SA = []" by simp
      with invB show ?thesis by auto
    qed
    have sp: "{x \<in> set ?BA. x \<le> min ?TA ?TB \<and> x \<notin> set ?BB} = {}"
    proof (cases "cj s < length SB")
      case True
      with False have "drop (ci s) SA = []" by simp
      then show ?thesis by simp
    next
      case False
      then have "drop (cj s) SB = []" by simp
      with invA show ?thesis by auto
    qed
    show ?thesis unfolding m sp using r by simp
  next
    case True
    then have i: "ci s < length SA" and j: "cj s < length SB" by simp_all
    define a where "a = pos_A s + SA ! ci s"
    define b where "b = pos_B s + SB ! cj s"
    let ?BA' = "breakpoints a (drop (Suc (ci s)) SA)"
    let ?BB' = "breakpoints b (drop (Suc (cj s)) SB)"
    have dA: "drop (ci s) SA = SA ! ci s # drop (Suc (ci s)) SA"
      using i by (simp add: Cons_nth_drop_Suc)
    have dB: "drop (cj s) SB = SB ! cj s # drop (Suc (cj s)) SB"
      using j by (simp add: Cons_nth_drop_Suc)
    have BA: "?BA = a # ?BA'" by (simp add: dA a_def)
    have BB: "?BB = b # ?BB'" by (simp add: dB b_def)
    have TA: "?TA = a + sum_list (drop (Suc (ci s)) SA)" by (simp add: dA a_def)
    have TB: "?TB = b + sum_list (drop (Suc (cj s)) SB)" by (simp add: dB b_def)
    have gA': "\<forall>x \<in> set ?BA'. a < x \<and> x \<le> ?TA"
      using breakpoints_bounds [OF pdA, of _ a "Suc (ci s)"] TA by simp
    have gB': "\<forall>x \<in> set ?BB'. b < x \<and> x \<le> ?TB"
      using breakpoints_bounds [OF pdB, of _ b "Suc (cj s)"] TB by simp
    have aTA: "a \<le> ?TA"
      using sum_list_nonneg [of "drop (Suc (ci s)) SA"] pdA [of "Suc (ci s)"] TA
      by (simp add: less_imp_le)
    have bTB: "b \<le> ?TB"
      using sum_list_nonneg [of "drop (Suc (cj s)) SB"] pdB [of "Suc (cj s)"] TB
      by (simp add: less_imp_le)
    from invA BA have pBa: "pos_B s < a" and pBA': "\<forall>x \<in> set ?BA'. pos_B s < x" by simp_all
    from invB BB have pAb: "pos_A s < b" and pAB': "\<forall>x \<in> set ?BB'. pos_A s < x" by simp_all
    note step = loop_body_step [OF segA segB i j, unfolded Let_def, folded a_def b_def]
    consider (eq) "a = b" | (lt) "a < b" | (gt) "b < a" by linarith
    then show ?thesis
    proof cases
      case eq
      define t where "t = s\<lparr>global_pos := a, pos_A := a, pos_B := b,
          ci := ci s + 1, cj := cj s + 1\<rparr>"
      have t: "loop_body gA gB p s = Inr t" using step eq by (simp add: t_def)
      have iB: "\<forall>x \<in> set (breakpoints (pos_B t) (drop (cj t) SB)). pos_A t < x"
        using gB' eq by (simp add: t_def)
      have iA: "\<forall>x \<in> set (breakpoints (pos_A t) (drop (ci t) SA)). pos_B t < x"
        using gA' eq by (simp add: t_def)
      from "1.IH" [OF c _ t segA segB posA posB iB iA] True
      obtain u where u: "co_traversal gA gB p t = Inr u"
        and mu: "merges u = merges s \<union> {x \<in> set ?BB'. x \<le> min ?TA ?TB \<and> x \<notin> set ?BA'}"
        and su: "splits u = splits s \<union> {x \<in> set ?BA'. x \<le> min ?TA ?TB \<and> x \<notin> set ?BB'}"
        by (auto simp: t_def TA TB)
      have r: "co_traversal gA gB p s = Inr u"
        using c True t u by (simp add: co_traversal.simps [of gA gB p s])
      have m: "{x \<in> set ?BB. x \<le> min ?TA ?TB \<and> x \<notin> set ?BA}
          = {x \<in> set ?BB'. x \<le> min ?TA ?TB \<and> x \<notin> set ?BA'}"
        unfolding BA BB using eq gA' gB' by auto
      have sp: "{x \<in> set ?BA. x \<le> min ?TA ?TB \<and> x \<notin> set ?BB}
          = {x \<in> set ?BA'. x \<le> min ?TA ?TB \<and> x \<notin> set ?BB'}"
        unfolding BA BB using eq gA' gB' by auto
      show ?thesis unfolding m sp
        by (rule exI [of _ u]) (simp only: r mu su Un_insert_left Un_insert_right simp_thms)
    next
      case lt
      define t where "t = s\<lparr>global_pos := a, splits := insert a (splits s), pos_A := a,
          ci := ci s + 1\<rparr>"
      have t: "loop_body gA gB p s = Inr t" using step lt by (simp add: t_def)
      have iB: "\<forall>x \<in> set (breakpoints (pos_B t) (drop (cj t) SB)). pos_A t < x"
        using gB' lt BB by (auto simp: t_def)
      have iA: "\<forall>x \<in> set (breakpoints (pos_A t) (drop (ci t) SA)). pos_B t < x"
        using pBA' by (simp add: t_def)
      from "1.IH" [OF c _ t segA segB posA posB iB iA] True
      obtain u where u: "co_traversal gA gB p t = Inr u"
        and mu: "merges u = merges s \<union> {x \<in> set ?BB. x \<le> min ?TA ?TB \<and> x \<notin> set ?BA'}"
        and su: "splits u = insert a (splits s)
            \<union> {x \<in> set ?BA'. x \<le> min ?TA ?TB \<and> x \<notin> set ?BB}"
        by (auto simp: t_def TA)
      have r: "co_traversal gA gB p s = Inr u"
        using c True t u by (simp add: co_traversal.simps [of gA gB p s])
      have m: "{x \<in> set ?BB. x \<le> min ?TA ?TB \<and> x \<notin> set ?BA}
          = {x \<in> set ?BB. x \<le> min ?TA ?TB \<and> x \<notin> set ?BA'}"
        unfolding BA using lt gB' BB by auto
      have sp: "{x \<in> set ?BA. x \<le> min ?TA ?TB \<and> x \<notin> set ?BB}
          = insert a {x \<in> set ?BA'. x \<le> min ?TA ?TB \<and> x \<notin> set ?BB}"
        unfolding BA using lt gB' BB aTA bTB by auto
      show ?thesis unfolding m sp
        by (rule exI [of _ u]) (simp only: r mu su Un_insert_left Un_insert_right simp_thms)
    next
      case gt
      define t where "t = s\<lparr>global_pos := b, merges := insert b (merges s), pos_B := b,
          cj := cj s + 1\<rparr>"
      have t: "loop_body gA gB p s = Inr t" using step gt by (simp add: t_def)
      have iB: "\<forall>x \<in> set (breakpoints (pos_B t) (drop (cj t) SB)). pos_A t < x"
        using pAB' by (simp add: t_def)
      have iA: "\<forall>x \<in> set (breakpoints (pos_A t) (drop (ci t) SA)). pos_B t < x"
        using gA' gt BA by (auto simp: t_def)
      from "1.IH" [OF c _ t segA segB posA posB iB iA] True
      obtain u where u: "co_traversal gA gB p t = Inr u"
        and mu: "merges u = insert b (merges s)
            \<union> {x \<in> set ?BB'. x \<le> min ?TA ?TB \<and> x \<notin> set ?BA}"
        and su: "splits u = splits s \<union> {x \<in> set ?BA. x \<le> min ?TA ?TB \<and> x \<notin> set ?BB'}"
        by (auto simp: t_def TB)
      have r: "co_traversal gA gB p s = Inr u"
        using c True t u by (simp add: co_traversal.simps [of gA gB p s])
      have m: "{x \<in> set ?BB. x \<le> min ?TA ?TB \<and> x \<notin> set ?BA}
          = insert b {x \<in> set ?BB'. x \<le> min ?TA ?TB \<and> x \<notin> set ?BA}"
        unfolding BB using gt gA' BA aTA bTB by auto
      have sp: "{x \<in> set ?BA. x \<le> min ?TA ?TB \<and> x \<notin> set ?BB}
          = {x \<in> set ?BA. x \<le> min ?TA ?TB \<and> x \<notin> set ?BB'}"
        unfolding BB using gt gA' BA by auto
      show ?thesis unfolding m sp
        by (rule exI [of _ u]) (simp only: r mu su Un_insert_left Un_insert_right simp_thms)
    qed
  qed
qed

lemma edits_up_to_bound: "x \<in> set (edits_up_to limit S other) \<Longrightarrow> x \<le> limit"
  by (simp add: edits_up_to_def)

lemma longer_end_is_an_edit:
  assumes "\<forall>l \<in> set S. 0 < l" and "\<forall>l \<in> set S'. 0 < l" and "sum_list S < sum_list S'"
  shows "sum_list S' \<in> set (breakpoints 0 S') \<and> sum_list S' \<notin> set (breakpoints 0 S)"
proof -
  from assms(1) have "0 \<le> sum_list S" by (simp add: sum_list_nonneg less_imp_le)
  with assms(3) have "S' \<noteq> []" by auto
  from breakpoints_end [OF this, of 0] have a: "sum_list S' \<in> set (breakpoints 0 S')" by simp
  from breakpoints_bounds [OF assms(1), of "sum_list S'" 0] assms(3)
  have "sum_list S' \<notin> set (breakpoints 0 S)" by auto
  with a show ?thesis by simp
qed

text \<open>
  C2. The claim is that two segmentations of different total lengths make the
  path-level edition fail with an alignment mismatch, with no result for the path.
  The code never compares the totals. With lengths \<open>[5]\<close> against \<open>[3]\<close> the loop
  runs once, records a merge at 3 and ends because \<^verbatim>\<open>j\<close> has reached the end of
  the second path; the result is returned as for any other path.
\<close>

theorem different_totals_counterexample:
  "segmentation g5 ''p'' = Some [5] \<and> segmentation g3 ''p'' = Some [3]
   \<and> sum_list [5 :: int] \<noteq> sum_list [3]
   \<and> edit_single_path_path_level ''p'' g5 g3 = Inr \<lparr>ed_merges = [3], ed_splits = []\<rparr>
   \<and> path_level_edition g5 g3 [''p''] = Inr [(''p'', \<lparr>ed_merges = [3], ed_splits = []\<rparr>)]"
  by (simp add: segmentation_def edit_single_path_path_level_def path_level_edition_def
      co_traversal.simps loop_cond_def loop_body_def g5_def g3_def one_path_graph_def
      init_cursor_def edition_of_def)

text \<open>
  C2, as the code has it: when both paths and all their segments exist and the
  total lengths differ, no exception is raised and the path gets a result. When no
  segment is empty, the result is the comparison of the two segmentations up to
  the end of the shorter one: the merges are the segment ends of B that are no
  segment ends of A, the splits the segment ends of A that are no segment ends of
  B, none of them beyond the smaller total. The end of the longer segmentation,
  which is a segment end of one of the two only, is not in the result.
\<close>

theorem different_totals_are_compared_up_to_the_shorter:
  assumes "segmentation graph_A path_name = Some S_A"
    and "segmentation graph_B path_name = Some S_B"
    and "sum_list S_A \<noteq> sum_list S_B"
  shows "\<exists>r. edit_single_path_path_level path_name graph_A graph_B = Inr r
     \<and> path_level_edition graph_A graph_B [path_name] = Inr [(path_name, r)]
     \<and> ((\<forall>l \<in> set S_A. 0 < l) \<and> (\<forall>l \<in> set S_B. 0 < l) \<longrightarrow>
          ed_merges r = edits_up_to (min (sum_list S_A) (sum_list S_B)) S_B S_A
        \<and> ed_splits r = edits_up_to (min (sum_list S_A) (sum_list S_B)) S_A S_B
        \<and> max (sum_list S_A) (sum_list S_B) \<in> set (breakpoints 0 S_A) \<union> set (breakpoints 0 S_B)
        \<and> max (sum_list S_A) (sum_list S_B) \<notin> set (breakpoints 0 S_A) \<inter> set (breakpoints 0 S_B)
        \<and> max (sum_list S_A) (sum_list S_B) \<notin> set (ed_merges r) \<union> set (ed_splits r))"
proof -
  let ?T = "min (sum_list S_A) (sum_list S_B)"
  let ?M = "max (sum_list S_A) (sum_list S_B)"
  from co_traversal_returns [OF assms(1,2), of init_cursor]
  obtain t where t: "co_traversal graph_A graph_B path_name init_cursor = Inr t" by auto
  then have r: "edit_single_path_path_level path_name graph_A graph_B = Inr (edition_of t)"
    and pl: "path_level_edition graph_A graph_B [path_name] = Inr [(path_name, edition_of t)]"
    by (simp_all add: edit_single_path_path_level_def path_level_edition_def)
  have "ed_merges (edition_of t) = edits_up_to ?T S_B S_A
      \<and> ed_splits (edition_of t) = edits_up_to ?T S_A S_B
      \<and> ?M \<in> set (breakpoints 0 S_A) \<union> set (breakpoints 0 S_B)
      \<and> ?M \<notin> set (breakpoints 0 S_A) \<inter> set (breakpoints 0 S_B)
      \<and> ?M \<notin> set (ed_merges (edition_of t)) \<union> set (ed_splits (edition_of t))"
    if pA: "\<forall>l \<in> set S_A. 0 < l" and pB: "\<forall>l \<in> set S_B. 0 < l"
  proof -
    have iB: "\<forall>x \<in> set (breakpoints (pos_B init_cursor) (drop (cj init_cursor) S_B)).
        pos_A init_cursor < x"
      using breakpoints_bounds [OF pB, of _ 0] by (simp add: init_cursor_def)
    have iA: "\<forall>x \<in> set (breakpoints (pos_A init_cursor) (drop (ci init_cursor) S_A)).
        pos_B init_cursor < x"
      using breakpoints_bounds [OF pA, of _ 0] by (simp add: init_cursor_def)
    from co_traversal_breakpoints [OF assms(1,2) pA pB iB iA] t
    have m: "merges t = {x \<in> set (breakpoints 0 S_B). x \<le> ?T \<and> x \<notin> set (breakpoints 0 S_A)}"
      and s: "splits t = {x \<in> set (breakpoints 0 S_A). x \<le> ?T \<and> x \<notin> set (breakpoints 0 S_B)}"
      by (simp_all add: init_cursor_def)
    have sA: "sorted (breakpoints 0 S_A)" "distinct (breakpoints 0 S_A)"
      using breakpoints_sorted [OF pA, of 0] by simp_all
    have sB: "sorted (breakpoints 0 S_B)" "distinct (breakpoints 0 S_B)"
      using breakpoints_sorted [OF pB, of 0] by simp_all
    have "ed_merges (edition_of t) = sorted_list_of_set (merges t)"
      by (simp add: edition_of_def)
    also have "\<dots> = edits_up_to ?T S_B S_A"
      unfolding m edits_up_to_def using sB by (rule sorted_list_of_filter)
    finally have em: "ed_merges (edition_of t) = edits_up_to ?T S_B S_A" .
    have "ed_splits (edition_of t) = sorted_list_of_set (splits t)"
      by (simp add: edition_of_def)
    also have "\<dots> = edits_up_to ?T S_A S_B"
      unfolding s edits_up_to_def using sA by (rule sorted_list_of_filter)
    finally have es: "ed_splits (edition_of t) = edits_up_to ?T S_A S_B" .
    have mx: "?M \<in> set (breakpoints 0 S_A) \<union> set (breakpoints 0 S_B)
        \<and> ?M \<notin> set (breakpoints 0 S_A) \<inter> set (breakpoints 0 S_B)"
    proof (cases "sum_list S_A < sum_list S_B")
      case True
      then have "?M = sum_list S_B" by simp
      with longer_end_is_an_edit [OF pA pB True] show ?thesis by simp
    next
      case False
      with assms(3) have lt: "sum_list S_B < sum_list S_A" by simp
      then have "?M = sum_list S_A" by simp
      with longer_end_is_an_edit [OF pB pA lt] show ?thesis by simp
    qed
    have lt: "?T < ?M" using assms(3) by (simp add: min_def max_def)
    have n1: "?M \<notin> set (edits_up_to ?T S_B S_A)"
      using edits_up_to_bound [of ?M ?T S_B S_A] lt by linarith
    have n2: "?M \<notin> set (edits_up_to ?T S_A S_B)"
      using edits_up_to_bound [of ?M ?T S_A S_B] lt by linarith
    from n1 n2 have nm: "?M \<notin> set (ed_merges (edition_of t)) \<union> set (ed_splits (edition_of t))"
      unfolding em es by simp
    from em es mx nm show ?thesis by (intro conjI) simp_all
  qed
  with r pl show ?thesis by blast
qed

theorem different_totals_are_compared_up_to_the_shorter_witness:
  "segmentation g37 ''p'' = Some [3, 7] \<and> segmentation g5 ''p'' = Some [5]
   \<and> sum_list [3, 7 :: int] \<noteq> sum_list [5]
   \<and> edit_single_path_path_level ''p'' g37 g5 = Inr \<lparr>ed_merges = [5], ed_splits = [3]\<rparr>
   \<and> path_level_edition g37 g5 [''p''] = Inr [(''p'', \<lparr>ed_merges = [5], ed_splits = [3]\<rparr>)]
   \<and> breakpoints 0 [3, 7] = [3, 10] \<and> breakpoints 0 [5] = [5]"
proof -
  have a: "segmentation g37 ''p'' = Some [3, 7]" and b: "segmentation g5 ''p'' = Some [5]"
    by (simp_all add: segmentation_def g37_def g5_def one_path_graph_def)
  have c: "sum_list [3, 7 :: int] \<noteq> sum_list [5]" by simp
  from different_totals_are_compared_up_to_the_shorter [OF a b c]
  obtain r where r: "edit_single_path_path_level ''p'' g37 g5 = Inr r"
    and pl: "path_level_edition g37 g5 [''p''] = Inr [(''p'', r)]"
    and m: "ed_merges r = edits_up_to (min (sum_list [3, 7]) (sum_list [5])) [5] [3, 7]"
    and s: "ed_splits r = edits_up_to (min (sum_list [3, 7]) (sum_list [5])) [3, 7] [5]"
    by auto
  from m s have "r = \<lparr>ed_merges = [5], ed_splits = [3]\<rparr>"
    by (simp add: edits_up_to_def)
  with r pl a b c show ?thesis by simp
qed

text \<open>
  C5. The claim is that lengths \<open>[5, 5]\<close> against \<open>[3, 7]\<close> give splits \<open>[3]\<close> and
  merges \<open>[5]\<close>. The first boundary reached is 3, the end of the first segment of B
  only, which the code records as a merge; the next is 5, the end of the first
  segment of A only, which it records as a split.
\<close>

theorem scenario_2_counterexample:
  "segmentation g55 ''p'' = Some [5, 5] \<and> segmentation g37 ''p'' = Some [3, 7]
   \<and> edit_single_path_path_level ''p'' g55 g37 \<noteq> Inr \<lparr>ed_merges = [5], ed_splits = [3]\<rparr>"
  by (simp add: segmentation_def edit_single_path_path_level_def
      co_traversal.simps loop_cond_def loop_body_def g55_def g37_def one_path_graph_def
      init_cursor_def edition_of_def)

text \<open>
  C5, as the code has it: lengths \<open>[5, 5]\<close> against \<open>[3, 7]\<close> give merges \<open>[3]\<close> and
  splits \<open>[5]\<close>.
\<close>

theorem scenario_2:
  "segmentation g55 ''p'' = Some [5, 5] \<and> segmentation g37 ''p'' = Some [3, 7]
   \<and> edit_single_path_path_level ''p'' g55 g37 = Inr \<lparr>ed_merges = [3], ed_splits = [5]\<rparr>
   \<and> path_level_edition g55 g37 [''p''] = Inr [(''p'', \<lparr>ed_merges = [3], ed_splits = [5]\<rparr>)]"
  by (simp add: segmentation_def edit_single_path_path_level_def path_level_edition_def
      co_traversal.simps loop_cond_def loop_body_def g55_def g37_def one_path_graph_def
      init_cursor_def edition_of_def)

section \<open>Sequential and parallel runs\<close>

text \<open>
  C10. The claim is that \<^verbatim>\<open>perform_edition\<close> gives the same result with one core
  and with several, also for the default selection \<^verbatim>\<open>True\<close>. With the default
  selection at path level, the sequential branch runs on the paths shared by the
  two graphs, while the parallel branch passes \<^verbatim>\<open>set(selection)\<close>, that is
  \<^verbatim>\<open>set(True)\<close>, which raises \<^verbatim>\<open>TypeError\<close> before any path is compared. For the
  two graphs of scenario 2: an exception with two cores, a result with one.
\<close>

theorem default_selection_fails_in_parallel:
  "perform_edition sequence_offsets g55 g37 False (Sel_bool True) 2 = Inl TypeError
   \<and> perform_edition sequence_offsets g55 g37 False (Sel_bool True) 1 =
       Inr (Path_level [(''p'', \<lparr>ed_merges = [3], ed_splits = [5]\<rparr>)])"
  by (simp add: perform_edition_def path_intersect_def path_level_edition_def
      co_traversal.simps loop_cond_def loop_body_def g55_def g37_def one_path_graph_def
      init_cursor_def edition_of_def)

theorem default_selection_fails_in_parallel_witness:
  "perform_edition (\<lambda>g. g) g55 g37 False (Sel_bool True) 2 = Inl TypeError
   \<and> perform_edition (\<lambda>g. g) g55 g37 False (Sel_bool True) 1 =
       Inr (Path_level [(''p'', \<lparr>ed_merges = [3], ed_splits = [5]\<rparr>)])"
  by (rule default_selection_fails_in_parallel [of "\<lambda>g. g"])

section \<open>Properties of the bubble detection\<close>

subsection \<open>Lists, indexes and chains\<close>

lemma comprehension_nth:
  "comprehension f xs = Inr ys \<Longrightarrow> length ys = length xs \<and> (\<forall>k<length xs. f (xs ! k) = Inr (ys ! k))"
proof (induction xs arbitrary: ys)
  case Nil
  then show ?case by simp
next
  case (Cons x xs)
  then obtain y zs where y: "f x = Inr y" and zs: "comprehension f xs = Inr zs" and ys: "ys = y # zs"
    by (auto split: sum.splits)
  from Cons.IH [OF zs] y ys show ?case
    by (auto simp: nth_Cons split: nat.splits)
qed

lemma list_index_first:
  "list_index xs x = Inr q \<Longrightarrow> q < length xs \<and> xs ! q = x \<and> x \<notin> set (take q xs)"
proof (induction xs arbitrary: q)
  case Nil
  then show ?case by simp
next
  case (Cons y ys)
  show ?case
  proof (cases "y = x")
    case True
    with Cons.prems show ?thesis by simp
  next
    case False
    with Cons.prems obtain r where r: "list_index ys x = Inr r" and q: "q = Suc r"
      by (auto split: sum.splits)
    from Cons.IH [OF r] False q show ?thesis by simp
  qed
qed

lemma list_index_before:
  assumes "list_index xs x = Inr q" and "x \<in> set (take n xs)"
  shows "q < n"
proof (rule ccontr)
  assume "\<not> q < n"
  then have "n \<le> q" by simp
  then have "set (take n xs) \<subseteq> set (take q xs)" by (rule set_take_subset_set_take)
  with assms(2) have "x \<in> set (take q xs)" by auto
  with list_index_first [OF assms(1)] show False by simp
qed

lemma grouper_pairs:
  "grouper xs 2 1 = map (\<lambda>i. [xs ! i, xs ! Suc i]) [0..<length xs - 1]"
proof -
  have "take 2 (drop i xs) = [xs ! i, xs ! Suc i]" if "i < length xs - 1" for i
  proof -
    from that have i: "i < length xs" and si: "Suc i < length xs" by simp_all
    have "drop i xs = xs ! i # xs ! Suc i # drop (Suc (Suc i)) xs"
      using i si by (simp add: Cons_nth_drop_Suc)
    then show ?thesis by (simp add: numeral_2_eq_2)
  qed
  then show ?thesis
    by (simp add: grouper_def)
qed

lemma inner_slice_subset:
  "set (inner (slice xs s t)) \<subseteq> set (take (t - 1) xs)"
proof -
  have a: "set (butlast (take t xs)) \<subseteq> set (take (t - 1) xs)"
  proof (cases "t \<le> length xs")
    case True
    then show ?thesis by (simp add: butlast_take)
  next
    case False
    then have "take t xs = xs" and "take (t - 1) xs = xs" by simp_all
    then show ?thesis by (simp add: in_set_butlastD subsetI)
  qed
  have "inner (slice xs s t) = butlast (tl (drop s (take t xs)))"
    by (simp add: inner_def slice_def drop_take)
  also have "\<dots> = tl (drop s (butlast (take t xs)))"
    by (simp add: butlast_drop butlast_tl)
  finally have "set (inner (slice xs s t)) \<subseteq> set (butlast (take t xs))"
    by (metis list.set_sel(2) set_drop_subset subsetI subset_trans tl_Nil)
  with a show ?thesis by blast
qed

lemma embed_nodes_iff:
  "x \<in> embed_nodes bubbles \<longleftrightarrow>
     (\<exists>bubble \<in> set bubbles. \<exists>entry \<in> set bubble. x \<in> set (inner (snd entry)))"
  by (auto simp: embed_nodes_def case_prod_beta)

lemma set_update_entry: "set (AList.update k v al) \<subseteq> insert (k, v) (set al)"
  by (induction al) auto

lemma embed_nodes_update:
  assumes "i < length bubbles"
  shows "embed_nodes (bubbles[i := AList.update k c (bubbles ! i)])
           \<subseteq> embed_nodes bubbles \<union> set (inner c)"
proof
  fix x
  assume "x \<in> embed_nodes (bubbles[i := AList.update k c (bubbles ! i)])"
  then obtain bubble entry where b: "bubble \<in> set (bubbles[i := AList.update k c (bubbles ! i)])"
    and e: "entry \<in> set bubble" and x: "x \<in> set (inner (snd entry))"
    by (auto simp: embed_nodes_iff)
  from b have "bubble = AList.update k c (bubbles ! i) \<or> bubble \<in> set bubbles"
    using set_update_subset_insert by fastforce
  then show "x \<in> embed_nodes bubbles \<union> set (inner c)"
  proof
    assume "bubble = AList.update k c (bubbles ! i)"
    with e set_update_entry [of k c "bubbles ! i"]
    have "entry = (k, c) \<or> entry \<in> set (bubbles ! i)" by auto
    with x assms show ?thesis
      by (auto simp: embed_nodes_iff intro: nth_mem)
  next
    assume "bubble \<in> set bubbles"
    with e x show ?thesis by (auto simp: embed_nodes_iff)
  qed
qed

lemma store_chains_embed:
  assumes "store_chains k chain ips bubbles = Inr bubbles'"
    and "x \<in> embed_nodes bubbles'"
  shows "x \<in> embed_nodes bubbles
           \<or> (\<exists>i s t. (i, [s, t]) \<in> set ips \<and> x \<in> set (inner (chain s t)))"
  using assms
proof (induction ips arbitrary: bubbles)
  case Nil
  then show ?case by simp
next
  case (Cons ip ips)
  obtain i pair where ip: "ip = (i, pair)" by (cases ip)
  from Cons.prems(1) ip obtain s t where pair: "pair = [s, t]" and i: "i < length bubbles"
    and rest: "store_chains k chain ips (bubbles[i := AList.update k (chain s t) (bubbles ! i)]) = Inr bubbles'"
    by (auto split: list.splits if_splits)
  from Cons.IH [OF rest Cons.prems(2)]
  have "x \<in> embed_nodes (bubbles[i := AList.update k (chain s t) (bubbles ! i)])
          \<or> (\<exists>i s t. (i, [s, t]) \<in> set ips \<and> x \<in> set (inner (chain s t)))" .
  then show ?case
  proof
    assume "x \<in> embed_nodes (bubbles[i := AList.update k (chain s t) (bubbles ! i)])"
    with embed_nodes_update [OF i, of k "chain s t"]
    have "x \<in> embed_nodes bubbles \<or> x \<in> set (inner (chain s t))" by auto
    with ip pair show ?thesis by auto
  next
    assume "\<exists>i s t. (i, [s, t]) \<in> set ips \<and> x \<in> set (inner (chain s t))"
    then show ?thesis by auto
  qed
qed

subsection \<open>The fixed-point loop\<close>

text \<open>
  An iteration only filters the endpoints. It never removes all of them: in every
  path, the endpoint whose first occurrence comes last lies inside no chain of that
  path, since every chain \<^verbatim>\<open>all_sets[path_name][start:end]\<close> ends before the
  position of an endpoint.
\<close>

lemma scan_paths_filter:
  "scan_paths a ps b e = Inr (b', e') \<Longrightarrow> \<exists>keep. e' = filter keep e"
proof (induction ps arbitrary: b e)
  case Nil
  then have "e' = filter (\<lambda>x. True) e" by simp
  then show ?case by blast
next
  case (Cons p ps)
  from Cons.prems obtain b1 where
    "scan_paths a ps b1 (filter (\<lambda>endpoint. endpoint \<notin> embed_nodes b1) e) = Inr (b', e')"
    by (auto split: option.splits sum.splits)
  from Cons.IH [OF this] obtain keep where
    "e' = filter keep (filter (\<lambda>endpoint. endpoint \<notin> embed_nodes b1) e)" by blast
  then have "e' = filter (\<lambda>x. x \<notin> embed_nodes b1 \<and> keep x) e" by simp
  then show ?case by blast
qed

lemma one_path_keeps_an_endpoint:
  assumes e: "e \<noteq> []"
    and clean: "\<forall>x \<in> set e. x \<notin> embed_nodes b"
    and idx: "comprehension (list_index nodes) e = Inr indexes"
    and st: "store_chains p (slice nodes) (enumerate 0 (grouper indexes 2 1)) b = Inr b1"
  shows "filter (\<lambda>endpoint. endpoint \<notin> embed_nodes b1) e \<noteq> []"
proof -
  from comprehension_nth [OF idx] have len: "length indexes = length e"
    and nth: "\<forall>k<length e. list_index nodes (e ! k) = Inr (indexes ! k)" by auto
  from e len have ne: "indexes \<noteq> []" by auto
  then have "Max (set indexes) \<in> set indexes" by simp
  then obtain k where k: "k < length e" and mk: "indexes ! k = Max (set indexes)"
    using len by (metis in_set_conv_nth)
  define x where "x = e ! k"
  have xe: "x \<in> set e" using k by (simp add: x_def)
  have xi: "list_index nodes x = Inr (Max (set indexes))" using nth k mk by (simp add: x_def)
  have "x \<notin> embed_nodes b1"
  proof
    assume "x \<in> embed_nodes b1"
    from store_chains_embed [OF st this] clean xe
    obtain i s t where pair: "(i, [s, t]) \<in> set (enumerate 0 (grouper indexes 2 1))"
      and x: "x \<in> set (inner (slice nodes s t))" by auto
    from pair have "[s, t] \<in> set (grouper indexes 2 1)"
      by (auto simp: in_set_enumerate_eq) (metis nth_mem)
    then have "[s, t] \<in> set (map (\<lambda>i. [indexes ! i, indexes ! Suc i]) [0..<length indexes - 1])"
      by (simp only: grouper_pairs)
    then obtain j where j: "j < length indexes - 1" and t: "t = indexes ! Suc j"
      by auto
    from j t have "t \<in> set indexes" by simp
    then have tmax: "t \<le> Max (set indexes)" by simp
    from x inner_slice_subset [of nodes s t] have "x \<in> set (take (t - 1) nodes)" by blast
    from list_index_before [OF xi this] tmax show False by simp
  qed
  with xe show ?thesis by (auto simp: filter_empty_conv)
qed

lemma scan_paths_nonempty:
  assumes "scan_paths a ps b e = Inr (b', e')" and "e \<noteq> []"
    and "\<forall>x \<in> set e. x \<notin> embed_nodes b"
  shows "e' \<noteq> []"
  using assms
proof (induction ps arbitrary: b e)
  case Nil
  then show ?case by simp
next
  case (Cons p ps)
  from Cons.prems(1) obtain nodes indexes b1 where
    idx: "comprehension (list_index nodes) e = Inr indexes"
    and st: "store_chains p (slice nodes) (enumerate 0 (grouper indexes 2 1)) b = Inr b1"
    and rest: "scan_paths a ps b1 (filter (\<lambda>endpoint. endpoint \<notin> embed_nodes b1) e) = Inr (b', e')"
    by (auto split: option.splits sum.splits)
  have ne: "filter (\<lambda>endpoint. endpoint \<notin> embed_nodes b1) e \<noteq> []"
    using one_path_keeps_an_endpoint [OF Cons.prems(2,3) idx st] .
  have "\<forall>x \<in> set (filter (\<lambda>endpoint. endpoint \<notin> embed_nodes b1) e). x \<notin> embed_nodes b1"
    by simp
  from Cons.IH [OF rest ne this] show ?case .
qed

lemma iteration_filter:
  "iteration a ps e = Inr e' \<Longrightarrow> \<exists>keep. e' = filter keep e"
  by (auto simp: iteration_def split: sum.splits dest: scan_paths_filter)

lemma iteration_nonempty:
  assumes "iteration a ps e = Inr e'" and "e \<noteq> []"
  shows "e' \<noteq> []"
proof -
  from assms(1) obtain b' where
    s: "scan_paths a ps (replicate (length e - 1) []) e = Inr (b', e')"
    by (auto simp: iteration_def split: sum.splits)
  have "\<forall>x \<in> set e. x \<notin> embed_nodes (replicate (length e - 1) [])"
    by (auto simp: embed_nodes_iff)
  from scan_paths_nonempty [OF s assms(2) this] show ?thesis .
qed

lemma fixed_point_within_enough:
  assumes "e \<noteq> []" and "length e \<le> n"
  shows "fixed_point_within n a ps e c = Some (fixed_point a ps e c)"
  using assms
proof (induction n arbitrary: e c)
  case 0
  then show ?case by simp
next
  case (Suc n)
  show ?case
  proof (cases "length e = c")
    case True
    then show ?thesis
      by (simp add: fixed_point_within.simps [of _ a ps e c] fixed_point.simps [of a ps e c])
  next
    case False
    show ?thesis
    proof (cases "iteration a ps e")
      case (Inl err)
      with False show ?thesis
        by (simp add: fixed_point_within.simps [of _ a ps e c] fixed_point.simps [of a ps e c])
    next
      case (Inr e')
      from iteration_nonempty [OF Inr Suc.prems(1)] have ne: "e' \<noteq> []" .
      from iteration_filter [OF Inr] have le: "length e' \<le> length e" by auto
      have "fixed_point_within n a ps e' (length e) = Some (fixed_point a ps e' (length e))"
      proof (cases "length e' = length e")
        case True
        then show ?thesis
          by (simp add: fixed_point_within.simps [of _ a ps e' "length e"]
              fixed_point.simps [of a ps e' "length e"])
      next
        case False
        with le Suc.prems(2) have "length e' \<le> n" by simp
        from Suc.IH [OF ne this] show ?thesis .
      qed
      with False Inr show ?thesis
        by (simp add: fixed_point_within.simps [of _ a ps e c] fixed_point.simps [of a ps e c])
    qed
  qed
qed

lemma iteration_g13294:
  "iteration (all_sets_of g13294) [''p''] [''1'', ''2'', ''3'', ''4'', ''9'']
     = Inr [''1'', ''3'', ''4'', ''9'']"
  by (simp add: iteration_def all_sets_of_def g13294_def path_graph_def grouper_def
      embed_nodes_def inner_def slice_def enumerate_eq_zip upt_rec [of 0] upt_rec [of 1]
      upt_rec [of 2] upt_rec [of 3] upt_rec [of 4] numeral_2_eq_2 numeral_3_eq_3)

lemma iteration_g13294_again:
  "iteration (all_sets_of g13294) [''p''] [''1'', ''3'', ''4'', ''9'']
     = Inr [''1'', ''3'', ''4'', ''9'']"
  by (simp add: iteration_def all_sets_of_def g13294_def path_graph_def grouper_def
      embed_nodes_def inner_def slice_def enumerate_eq_zip upt_rec [of 0] upt_rec [of 1]
      upt_rec [of 2] upt_rec [of 3] upt_rec [of 4] numeral_2_eq_2 numeral_3_eq_3)

text \<open>
  C7. In the fixed-point loop of \<^verbatim>\<open>bubble_caller\<close>, an iteration that returns gives
  a filtered sublist of the endpoints it started from, so their number never
  grows; and the loop ends after at most as many iterations as there are endpoints
  at the start: run with that bound on the iterations, it gives the result of the
  unbounded loop.
\<close>

theorem endpoints_only_removed_and_loop_bounded:
  "(iteration all_sets path_names bubbles_endpoints = Inr endpoints \<longrightarrow>
      (\<exists>keep. endpoints = filter keep bubbles_endpoints)
      \<and> length endpoints \<le> length bubbles_endpoints)
   \<and> fixed_point_within (length bubbles_endpoints) all_sets path_names bubbles_endpoints 0
       = Some (fixed_point all_sets path_names bubbles_endpoints 0)"
proof -
  have a: "iteration all_sets path_names bubbles_endpoints = Inr endpoints \<longrightarrow>
      (\<exists>keep. endpoints = filter keep bubbles_endpoints)
      \<and> length endpoints \<le> length bubbles_endpoints"
    using iteration_filter [of all_sets path_names bubbles_endpoints endpoints] by auto
  have b: "fixed_point_within (length bubbles_endpoints) all_sets path_names bubbles_endpoints 0
       = Some (fixed_point all_sets path_names bubbles_endpoints 0)"
  proof (cases "bubbles_endpoints = []")
    case True
    then show ?thesis
      by (simp add: fixed_point_within.simps [of _ all_sets path_names "[]" 0]
          fixed_point.simps [of all_sets path_names "[]" 0])
  next
    case False
    then show ?thesis by (simp add: fixed_point_within_enough)
  qed
  from a b show ?thesis by blast
qed

theorem endpoints_only_removed_and_loop_bounded_witness:
  "iteration (all_sets_of g13294) [''p''] [''1'', ''2'', ''3'', ''4'', ''9'']
     = Inr [''1'', ''3'', ''4'', ''9'']
   \<and> (\<exists>keep. [''1'', ''3'', ''4'', ''9''] = filter keep [''1'', ''2'', ''3'', ''4'', ''9''])
   \<and> fixed_point_within 5 (all_sets_of g13294) [''p''] [''1'', ''2'', ''3'', ''4'', ''9''] 0
       = Some (Inr [''1'', ''3'', ''4'', ''9''])"
proof -
  have fp: "fixed_point (all_sets_of g13294) [''p''] [''1'', ''2'', ''3'', ''4'', ''9''] 0
      = Inr [''1'', ''3'', ''4'', ''9'']"
    by (simp add: fixed_point.simps [of _ _ "[''1'', ''2'', ''3'', ''4'', ''9'']"]
        fixed_point.simps [of _ _ "[''1'', ''3'', ''4'', ''9'']"]
        iteration_g13294 iteration_g13294_again)
  from endpoints_only_removed_and_loop_bounded [of "all_sets_of g13294" "[''p'']"
      "[''1'', ''2'', ''3'', ''4'', ''9'']" "[''1'', ''3'', ''4'', ''9'']"]
    iteration_g13294 fp
  show ?thesis by (simp add: eval_nat_numeral)
qed

subsection \<open>The final extraction\<close>

text \<open>
  What the loops over the pairs of endpoints store: bubble \<open>k\<close> gets, for every
  path, the chain between the positions of endpoints \<open>k\<close> and \<open>k + 1\<close> in that
  path.
\<close>

lemma store_chains_result:
  assumes "store_chains p chain ips b = Inr b'" and "distinct (map fst ips)"
  shows "length b' = length b
    \<and> (\<forall>i s t. (i, [s, t]) \<in> set ips \<longrightarrow> b' ! i = AList.update p (chain s t) (b ! i))
    \<and> (\<forall>k. k \<notin> fst ` set ips \<longrightarrow> b' ! k = b ! k)"
  using assms
proof (induction ips arbitrary: b)
  case Nil
  then show ?case by simp
next
  case (Cons ip ips)
  obtain i pair where ip: "ip = (i, pair)" by (cases ip)
  from Cons.prems(1) ip obtain s t where pair: "pair = [s, t]" and i: "i < length b"
    and rest: "store_chains p chain ips (b[i := AList.update p (chain s t) (b ! i)]) = Inr b'"
    by (auto split: list.splits if_splits)
  from Cons.prems(2) ip have d: "distinct (map fst ips)" and fresh: "i \<notin> fst ` set ips" by auto
  from Cons.IH [OF rest d]
  have len: "length b' = length b"
    and upd: "\<forall>j u v. (j, [u, v]) \<in> set ips \<longrightarrow>
        b' ! j = AList.update p (chain u v) (b[i := AList.update p (chain s t) (b ! i)] ! j)"
    and same: "\<forall>k. k \<notin> fst ` set ips \<longrightarrow> b' ! k = b[i := AList.update p (chain s t) (b ! i)] ! k"
    by auto
  have a: "b' ! j = AList.update p (chain u v) (b ! j)" if "(j, [u, v]) \<in> set (ip # ips)" for j u v
  proof (cases "(j, [u, v]) = ip")
    case True
    with ip pair have "j = i" "u = s" "v = t" by auto
    with same fresh i show ?thesis by simp
  next
    case False
    with that have m: "(j, [u, v]) \<in> set ips" by simp
    then have "j \<in> fst ` set ips" by force
    with fresh have "j \<noteq> i" by auto
    with upd m show ?thesis by simp
  qed
  have b: "b' ! k = b ! k" if "k \<notin> fst ` set (ip # ips)" for k
  proof -
    from that ip have "k \<noteq> i" and "k \<notin> fst ` set ips" by auto
    with same show ?thesis by simp
  qed
  from len a b show ?case by blast
qed

lemma store_chains_pairs:
  assumes st: "store_chains p chain (enumerate 0 (grouper indexes 2 1)) b = Inr b'"
    and len: "length b = length indexes - 1"
  shows "length b' = length b
    \<and> (\<forall>k<length b. b' ! k = AList.update p (chain (indexes ! k) (indexes ! Suc k)) (b ! k))"
proof -
  let ?ips = "enumerate 0 (grouper indexes 2 1)"
  have d: "distinct (map fst ?ips)" by simp
  have m: "(k, [indexes ! k, indexes ! Suc k]) \<in> set ?ips" if "k < length b" for k
    using that len unfolding grouper_pairs by (simp add: in_set_enumerate_eq)
  from store_chains_result [OF st d] m show ?thesis by blast
qed

lemma extract_paths_chains:
  assumes "extract_paths a m names eps b = Inr b'" and "distinct names"
    and "length b = length eps - 1"
  shows "length b' = length b
    \<and> (\<forall>q k. q \<notin> set names \<longrightarrow> k < length b \<longrightarrow> map_of (b' ! k) q = map_of (b ! k) q)
    \<and> (\<forall>q k nodes indexes path. q \<in> set names \<longrightarrow> k < length b \<longrightarrow>
          map_of a q = Some nodes \<longrightarrow> comprehension (list_index nodes) eps = Inr indexes \<longrightarrow>
          map_of m q = Some path \<longrightarrow>
          map_of (b' ! k) q = Some (slice path (indexes ! k) (indexes ! Suc k + 1)))"
  using assms
proof (induction names arbitrary: b)
  case Nil
  then show ?case by simp
next
  case (Cons p names)
  from Cons.prems(1) obtain nodes indexes path b1 where
    nodes: "map_of a p = Some nodes"
    and idx: "comprehension (list_index nodes) eps = Inr indexes"
    and path: "map_of m p = Some path"
    and st: "store_chains p (\<lambda>start stop. slice path start (stop + 1))
               (enumerate 0 (grouper indexes 2 1)) b = Inr b1"
    and rest: "extract_paths a m names eps b1 = Inr b'"
    by (auto split: option.splits sum.splits)
  from comprehension_nth [OF idx] have li: "length indexes = length eps" by simp
  with Cons.prems(3) have lb: "length b = length indexes - 1" by simp
  from store_chains_pairs [OF st lb]
  have l1: "length b1 = length b"
    and c1: "\<forall>k<length b. b1 ! k =
        AList.update p (slice path (indexes ! k) (indexes ! Suc k + 1)) (b ! k)"
    by auto
  from Cons.prems(2) have d: "distinct names" and fresh: "p \<notin> set names" by auto
  from l1 Cons.prems(3) have l1': "length b1 = length eps - 1" by simp
  from Cons.IH [OF rest d l1']
  have l2: "length b' = length b1"
    and out: "\<forall>q k. q \<notin> set names \<longrightarrow> k < length b1 \<longrightarrow> map_of (b' ! k) q = map_of (b1 ! k) q"
    and inn: "\<forall>q k nodes indexes path. q \<in> set names \<longrightarrow> k < length b1 \<longrightarrow>
          map_of a q = Some nodes \<longrightarrow> comprehension (list_index nodes) eps = Inr indexes \<longrightarrow>
          map_of m q = Some path \<longrightarrow>
          map_of (b' ! k) q = Some (slice path (indexes ! k) (indexes ! Suc k + 1))"
    by auto
  have A: "map_of (b' ! k) q = map_of (b ! k) q" if "q \<notin> set (p # names)" "k < length b" for q k
  proof -
    from that have "q \<noteq> p" "q \<notin> set names" by auto
    with out c1 l1 that(2) show ?thesis by (simp add: update_conv')
  qed
  have B: "map_of (b' ! k) q = Some (slice path' (indexes' ! k) (indexes' ! Suc k + 1))"
    if "q \<in> set (p # names)" "k < length b" "map_of a q = Some nodes'"
      "comprehension (list_index nodes') eps = Inr indexes'" "map_of m q = Some path'"
    for q k nodes' indexes' path'
  proof (cases "q = p")
    case True
    with that nodes idx path have "path' = path" "indexes' = indexes" by auto
    moreover from True fresh out l1 that(2)
    have "map_of (b' ! k) q = map_of (b1 ! k) p" by simp
    ultimately show ?thesis using c1 that(2) by (simp add: update_conv')
  next
    case False
    with that(1) have "q \<in> set names" by simp
    with inn l1 that show ?thesis by simp
  qed
  show ?case
  proof (intro conjI allI impI)
    show "length b' = length b" using l2 l1 by simp
  next
    fix q k
    assume "q \<notin> set (p # names)" "k < length b"
    then show "map_of (b' ! k) q = map_of (b ! k) q" by (rule A)
  next
    fix q k nodes' indexes' path'
    assume "q \<in> set (p # names)" "k < length b" "map_of a q = Some nodes'"
      "comprehension (list_index nodes') eps = Inr indexes'" "map_of m q = Some path'"
    then show "map_of (b' ! k) q = Some (slice path' (indexes' ! k) (indexes' ! Suc k + 1))"
      by (rule B)
  qed
qed

text \<open>
  Once the \<^verbatim>\<open>while\<close> loop has returned its endpoints, the extraction raises
  nothing: the endpoints are distinct nodes of every path, so that every
  \<^verbatim>\<open>index\<close> succeeds, and there is one bubble for each pair of neighbours.
\<close>

lemma list_index_member: "x \<in> set xs \<Longrightarrow> \<exists>q. list_index xs x = Inr q"
  by (induction xs) auto

lemma comprehension_returns:
  "\<forall>x \<in> set xs. \<exists>y. f x = Inr y \<Longrightarrow> \<exists>ys. comprehension f xs = Inr ys"
  by (induction xs) auto

lemma store_chains_returns:
  assumes "\<forall>ip \<in> set ips. fst ip < length b \<and> length (snd ip) = 2"
  shows "\<exists>b'. store_chains p chain ips b = Inr b'"
  using assms
proof (induction ips arbitrary: b)
  case Nil
  then show ?case by simp
next
  case (Cons ip ips)
  obtain i pair where ip: "ip = (i, pair)" by (cases ip)
  with Cons.prems have i: "i < length b" and "length pair = 2" by auto
  then obtain s t where pair: "pair = [s, t]"
    by (cases pair; cases "tl pair"; cases "tl (tl pair)") auto
  have "\<forall>ip \<in> set ips. fst ip < length (b[i := AList.update p (chain s t) (b ! i)])
      \<and> length (snd ip) = 2"
    using Cons.prems by simp
  from Cons.IH [OF this] ip pair i show ?case by simp
qed

lemma store_chains_pairs_returns:
  assumes "length b = length indexes - 1"
  shows "\<exists>b'. store_chains p chain (enumerate 0 (grouper indexes 2 1)) b = Inr b'"
proof (rule store_chains_returns)
  show "\<forall>ip \<in> set (enumerate 0 (grouper indexes 2 1)). fst ip < length b \<and> length (snd ip) = 2"
    using assms unfolding grouper_pairs by (auto simp: in_set_enumerate_eq)
qed

lemma extract_paths_returns:
  assumes "\<forall>q \<in> set names. \<exists>nodes. map_of a q = Some nodes \<and> set eps \<subseteq> set nodes"
    and "\<forall>q \<in> set names. map_of m q \<noteq> None"
    and "length b = length eps - 1"
  shows "\<exists>b'. extract_paths a m names eps b = Inr b'"
  using assms
proof (induction names arbitrary: b)
  case Nil
  then show ?case by simp
next
  case (Cons p names)
  from Cons.prems(1) obtain nodes where nodes: "map_of a p = Some nodes"
    and sub: "set eps \<subseteq> set nodes" by auto
  from sub have "\<forall>x \<in> set eps. \<exists>y. list_index nodes x = Inr y"
    by (auto intro: list_index_member)
  from comprehension_returns [OF this] obtain indexes where
    idx: "comprehension (list_index nodes) eps = Inr indexes" by blast
  from Cons.prems(2) obtain path where path: "map_of m p = Some path" by auto
  from comprehension_nth [OF idx] Cons.prems(3) have lb: "length b = length indexes - 1" by simp
  from store_chains_pairs_returns [OF lb] obtain b1 where
    st: "store_chains p (\<lambda>start stop. slice path start (stop + 1))
           (enumerate 0 (grouper indexes 2 1)) b = Inr b1" by blast
  from store_chains_pairs [OF st lb] Cons.prems(3) have l1: "length b1 = length eps - 1" by simp
  from Cons.prems(1,2) have
    "\<forall>q \<in> set names. \<exists>nodes. map_of a q = Some nodes \<and> set eps \<subseteq> set nodes"
    "\<forall>q \<in> set names. map_of m q \<noteq> None" by simp_all
  from Cons.IH [OF this l1] nodes idx path st show ?case by simp
qed

lemma fold_inter: "fold (\<lambda>other acc. acc \<inter> other) others first = first \<inter> \<Inter> (set others)"
  by (induction others arbitrary: first) auto

lemma initial_endpoints_props:
  assumes "initial_endpoints py_int all_sets = Inr eps"
  shows "distinct eps \<and> (\<forall>entry \<in> set all_sets. set eps \<subseteq> set (snd entry))"
proof -
  from assms obtain members where
    cm: "common_members (map (\<lambda>(_, x). set x) all_sets) = Inr members"
    and eps: "eps = sort_key (\<lambda>m. the (py_int m)) members"
    by (auto simp: initial_endpoints_def split: sum.splits if_splits)
  from cm obtain first others where
    l: "map (\<lambda>(_, x). set x) all_sets = first # others"
    and m: "members = sorted_list_of_set (first \<inter> \<Inter> (set others))"
    by (auto simp: common_members_def fold_inter split: list.splits)
  from l have "first \<in> set (map (\<lambda>(_, x). set x) all_sets)" by simp
  then have "finite first" by auto
  then have fin: "finite (first \<inter> \<Inter> (set others))" by simp
  from m eps have d: "distinct eps" by simp
  from m eps fin have s: "set eps = first \<inter> \<Inter> (set others)" by simp
  have "set eps \<subseteq> set (snd entry)" if "entry \<in> set all_sets" for entry
  proof -
    from that have "set (snd entry) \<in> set (map (\<lambda>(_, x). set x) all_sets)"
      by (auto simp: case_prod_beta)
    with l have "set (snd entry) \<in> set (first # others)" by simp
    with s show ?thesis by auto
  qed
  with d show ?thesis by blast
qed

lemma fixed_point_filter:
  "fixed_point a ps e c = Inr e' \<Longrightarrow> \<exists>keep. e' = filter keep e"
proof (induction a ps e c rule: fixed_point.induct)
  case (1 a ps e c)
  show ?case
  proof (cases "length e = c")
    case True
    with "1.prems" have "e' = filter (\<lambda>x. True) e" by (simp add: fixed_point.simps [of a ps e c])
    then show ?thesis by blast
  next
    case False
    with "1.prems" obtain e1 where it: "iteration a ps e = Inr e1"
      and fp: "fixed_point a ps e1 (length e) = Inr e'"
      by (auto simp: fixed_point.simps [of a ps e c] split: sum.splits)
    from "1.IH" [OF _ it fp] False obtain keep where k: "e' = filter keep e1" by auto
    from iteration_filter [OF it] obtain keep1 where "e1 = filter keep1 e" by blast
    with k have "e' = filter (\<lambda>x. keep1 x \<and> keep x) e" by simp
    then show ?thesis by blast
  qed
qed

lemma final_endpoints_props:
  assumes "final_endpoints py_int g = Inr eps"
  shows "distinct eps \<and> (\<forall>entry \<in> set (paths g). set eps \<subseteq> set (map fst (snd entry)))"
proof -
  from assms obtain eps0 where i: "initial_endpoints py_int (all_sets_of g) = Inr eps0"
    and f: "fixed_point (all_sets_of g) (map fst (paths g)) eps0 0 = Inr eps"
    by (auto simp: final_endpoints_def split: sum.splits)
  from fixed_point_filter [OF f] obtain keep where k: "eps = filter keep eps0" by blast
  from initial_endpoints_props [OF i] have d: "distinct eps0"
    and s: "\<forall>entry \<in> set (all_sets_of g). set eps0 \<subseteq> set (snd entry)" by auto
  have "set eps \<subseteq> set (map fst (snd entry))" if "entry \<in> set (paths g)" for entry
  proof -
    from that have "(fst entry, map fst (snd entry)) \<in> set (all_sets_of g)"
      by (force simp: all_sets_of_def case_prod_beta)
    with s have "set eps0 \<subseteq> set (map fst (snd entry))" by fastforce
    with k show ?thesis by auto
  qed
  with d k show ?thesis by auto
qed

lemma all_sets_of_lookup:
  "map_of (all_sets_of g) q = map_option (map fst) (map_of (paths g) q)"
  by (simp add: all_sets_of_def map_of_map)

lemma bubble_caller_chains:
  assumes d: "distinct (map fst (paths g))"
    and fe: "final_endpoints py_int g = Inr eps"
  shows "\<exists>bubbles. bubble_caller py_int g = Inr bubbles \<and> length bubbles = length eps - 1
    \<and> (\<forall>p path indexes k. map_of (paths g) p = Some path \<longrightarrow>
          comprehension (list_index (map fst path)) eps = Inr indexes \<longrightarrow> k < length eps - 1 \<longrightarrow>
          map_of (bubbles ! k) p = Some (slice path (indexes ! k) (indexes ! Suc k + 1)))"
proof -
  let ?b = "replicate (length eps - 1) []"
  from final_endpoints_props [OF fe]
  have sub: "\<forall>entry \<in> set (paths g). set eps \<subseteq> set (map fst (snd entry))" by simp
  have a: "\<forall>q \<in> set (map fst (paths g)).
      \<exists>nodes. map_of (all_sets_of g) q = Some nodes \<and> set eps \<subseteq> set nodes"
  proof
    fix q assume "q \<in> set (map fst (paths g))"
    then have "map_of (paths g) q \<noteq> None" by (simp add: map_of_eq_None_iff)
    then obtain path where p: "map_of (paths g) q = Some path" by auto
    then have "(q, path) \<in> set (paths g)" by (rule map_of_SomeD)
    with sub have "set eps \<subseteq> set (map fst path)" by fastforce
    with p show "\<exists>nodes. map_of (all_sets_of g) q = Some nodes \<and> set eps \<subseteq> set nodes"
      by (simp add: all_sets_of_lookup)
  qed
  have m: "\<forall>q \<in> set (map fst (paths g)). map_of (paths g) q \<noteq> None"
    by (simp add: map_of_eq_None_iff)
  have l: "length ?b = length eps - 1" by simp
  from extract_paths_returns [OF a m l] obtain bubbles where
    ex: "extract_paths (all_sets_of g) (paths g) (map fst (paths g)) eps ?b = Inr bubbles"
    by blast
  with fe have bc: "bubble_caller py_int g = Inr bubbles" by (simp add: bubble_caller_def)
  from extract_paths_chains [OF ex d l]
  have len: "length bubbles = length eps - 1"
    and ch: "\<forall>q k nodes indexes path. q \<in> set (map fst (paths g)) \<longrightarrow> k < length ?b \<longrightarrow>
          map_of (all_sets_of g) q = Some nodes \<longrightarrow>
          comprehension (list_index nodes) eps = Inr indexes \<longrightarrow>
          map_of (paths g) q = Some path \<longrightarrow>
          map_of (bubbles ! k) q = Some (slice path (indexes ! k) (indexes ! Suc k + 1))"
    by auto
  have "map_of (bubbles ! k) p = Some (slice path (indexes ! k) (indexes ! Suc k + 1))"
    if "map_of (paths g) p = Some path" "comprehension (list_index (map fst path)) eps = Inr indexes"
      "k < length eps - 1" for p path indexes k
  proof -
    from that(1) have "p \<in> set (map fst (paths g))"
      by (metis map_of_eq_None_iff option.distinct(1) set_map)
    moreover from that(1) have "map_of (all_sets_of g) p = Some (map fst path)"
      by (simp add: all_sets_of_lookup)
    ultimately show ?thesis using ch that by simp
  qed
  with bc len show ?thesis by blast
qed

text \<open>Slices that follow one another.\<close>

lemma those_map_Some: "those (map Some xs) = Some xs"
  by (induction xs) auto

lemma tl_slice: "tl (slice xs s (t + 1)) = slice xs (s + 1) (t + 1)"
  by (simp add: slice_def tl_take tl_drop drop_Suc)

lemma slice_append: "a \<le> b \<Longrightarrow> b \<le> c \<Longrightarrow> slice xs a b @ slice xs b c = slice xs a c"
proof -
  assume ab: "a \<le> b" and bc: "b \<le> c"
  have "take ((b - a) + (c - b)) (drop a xs)
      = take (b - a) (drop a xs) @ take (c - b) (drop (b - a) (drop a xs))"
    by (rule take_add)
  with ab bc show ?thesis by (simp add: slice_def)
qed

lemma upt_shift: "[0..<Suc n] = 0 # map Suc [0..<n]"
  by (simp add: upt_conv_Cons map_Suc_upt del: upt_Suc)

lemma concat_tl_chains:
  "sorted (j # rest) \<Longrightarrow>
   concat (map (\<lambda>k. tl (slice xs ((j # rest) ! k) ((j # rest) ! Suc k + 1))) [0..<length rest])
     = slice xs (j + 1) (last (j # rest) + 1)"
proof (induction rest arbitrary: j)
  case Nil
  then show ?case by (simp add: slice_def)
next
  case (Cons i rest)
  from Cons.prems have s: "sorted (i # rest)" and ji: "j \<le> i" by simp_all
  from s have il: "i \<le> last (i # rest)" by (metis last_in_set list.distinct(1) set_ConsD sorted_simps(2) order_refl)
  have "concat (map (\<lambda>k. tl (slice xs ((j # i # rest) ! k) ((j # i # rest) ! Suc k + 1)))
          [0..<length (i # rest)])
      = tl (slice xs j (i + 1))
        @ concat (map (\<lambda>k. tl (slice xs ((i # rest) ! k) ((i # rest) ! Suc k + 1))) [0..<length rest])"
    by (simp add: upt_shift comp_def del: upt_Suc)
  also have "\<dots> = slice xs (j + 1) (i + 1) @ slice xs (i + 1) (last (i # rest) + 1)"
    using Cons.IH [OF s] by (simp only: tl_slice)
  also have "\<dots> = slice xs (j + 1) (last (i # rest) + 1)"
    using ji il by (intro slice_append) simp_all
  finally show ?case by simp
qed

lemma join_slices:
  assumes "sorted indexes" and "2 \<le> length indexes"
  shows "join_chains (map (\<lambda>k. slice xs (indexes ! k) (indexes ! Suc k + 1)) [0..<length indexes - 1])
     = slice xs (hd indexes) (last indexes + 1)"
proof -
  from assms(2) obtain i j rest where idx: "indexes = i # j # rest"
    by (cases indexes; cases "tl indexes") auto
  with assms(1) have s: "sorted (j # rest)" and ij: "i \<le> j" by simp_all
  from s have jl: "j \<le> last (j # rest)" by (metis last_in_set list.distinct(1) set_ConsD sorted_simps(2) order_refl)
  have "join_chains (map (\<lambda>k. slice xs (indexes ! k) (indexes ! Suc k + 1)) [0..<length indexes - 1])
      = slice xs i (j + 1)
        @ concat (map (\<lambda>k. tl (slice xs ((j # rest) ! k) ((j # rest) ! Suc k + 1))) [0..<length rest])"
    by (simp add: idx upt_shift comp_def del: upt_Suc)
  also have "\<dots> = slice xs i (j + 1) @ slice xs (j + 1) (last (j # rest) + 1)"
    by (simp only: concat_tl_chains [OF s])
  also have "\<dots> = slice xs i (last (j # rest) + 1)"
    using ij jl by (intro slice_append) simp_all
  finally show ?thesis by (simp add: idx)
qed


text \<open>
  C6. The claim is that, for every path, the chains of the path in the bubbles of
  \<^verbatim>\<open>bubble_caller\<close>, concatenated in order, are the path, nothing missing and
  nothing twice. The chain \<^verbatim>\<open>all_maps[path_name][start:end+1]\<close> contains both of
  its endpoints, so two neighbouring chains share one: for the path 1, 2, 3 the
  chains are 1, 2 and 2, 3, and their concatenation 1, 2, 2, 3 is not the path.
\<close>

theorem chains_overlap_counterexample:
  "bubble_caller decimal g123 =
     Inr [[(''p'', [(''1'', Forward), (''2'', Forward)])],
          [(''p'', [(''2'', Forward), (''3'', Forward)])]]
   \<and> path_chains ''p'' [[(''p'', [(''1'', Forward), (''2'', Forward)])],
                        [(''p'', [(''2'', Forward), (''3'', Forward)])]]
       = Some [[(''1'', Forward), (''2'', Forward)], [(''2'', Forward), (''3'', Forward)]]
   \<and> concat [[(''1'', Forward), (''2'', Forward)], [(''2'', Forward), (''3'', Forward)]]
       = [(''1'', Forward), (''2'', Forward), (''2'', Forward), (''3'', Forward)]
   \<and> map_of (paths g123) ''p'' = Some [(''1'', Forward), (''2'', Forward), (''3'', Forward)]"
  by code_simp

text \<open>
  C6, as the code has it: for a path that meets the final endpoints, two at least,
  in the order of their list, \<^verbatim>\<open>bubble_caller\<close> returns one chain of the path per
  pair of neighbouring endpoints, from the first occurrence of the one to the
  first occurrence of the other, both included; joined in order, the shared
  endpoints kept once, the chains are the part of the path from the first endpoint
  to the last one. What the path has before the first endpoint and after the last
  is in no chain.
\<close>

theorem chains_join_to_the_path_between_the_outer_anchors:
  assumes "distinct (map fst (paths g))"
    and "final_endpoints py_int g = Inr eps"
    and "map_of (paths g) p = Some path"
    and "comprehension (list_index (map fst path)) eps = Inr indexes"
    and "sorted indexes" and "2 \<le> length eps"
  shows "\<exists>bubbles chain_list. bubble_caller py_int g = Inr bubbles
    \<and> path_chains p bubbles = Some chain_list
    \<and> length chain_list = length eps - 1
    \<and> (\<forall>k<length chain_list. chain_list ! k = slice path (indexes ! k) (indexes ! Suc k + 1))
    \<and> join_chains chain_list = slice path (hd indexes) (last indexes + 1)"
proof -
  from bubble_caller_chains [OF assms(1,2)] obtain bubbles where
    bc: "bubble_caller py_int g = Inr bubbles" and len: "length bubbles = length eps - 1"
    and ch: "\<forall>p path indexes k. map_of (paths g) p = Some path \<longrightarrow>
          comprehension (list_index (map fst path)) eps = Inr indexes \<longrightarrow> k < length eps - 1 \<longrightarrow>
          map_of (bubbles ! k) p = Some (slice path (indexes ! k) (indexes ! Suc k + 1))"
    by blast
  from comprehension_nth [OF assms(4)] have li: "length indexes = length eps" by simp
  define chain_list where
    "chain_list = map (\<lambda>k. slice path (indexes ! k) (indexes ! Suc k + 1)) [0..<length indexes - 1]"
  have "map (\<lambda>bubble. map_of bubble p) bubbles = map Some chain_list"
  proof (rule nth_equalityI)
    show "length (map (\<lambda>bubble. map_of bubble p) bubbles) = length (map Some chain_list)"
      using len li by (simp add: chain_list_def)
  next
    fix k assume "k < length (map (\<lambda>bubble. map_of bubble p) bubbles)"
    then have k: "k < length eps - 1" using len by simp
    with ch assms(3,4) have "map_of (bubbles ! k) p
        = Some (slice path (indexes ! k) (indexes ! Suc k + 1))" by blast
    with k len li show "map (\<lambda>bubble. map_of bubble p) bubbles ! k = map Some chain_list ! k"
      by (simp add: chain_list_def)
  qed
  then have pc: "path_chains p bubbles = Some chain_list"
    by (simp add: path_chains_def those_map_Some)
  have l: "length chain_list = length eps - 1" by (simp add: chain_list_def li)
  have n: "\<forall>k<length chain_list. chain_list ! k = slice path (indexes ! k) (indexes ! Suc k + 1)"
    by (simp add: chain_list_def)
  from assms(5,6) li have j: "join_chains chain_list = slice path (hd indexes) (last indexes + 1)"
    unfolding chain_list_def by (intro join_slices) simp_all
  from bc pc l n j show ?thesis by blast
qed

theorem chains_join_to_the_path_between_the_outer_anchors_witness:
  "\<exists>bubbles chain_list. bubble_caller decimal g_pq = Inr bubbles
    \<and> path_chains ''p'' bubbles = Some chain_list
    \<and> length chain_list = 2
    \<and> join_chains chain_list
        = [(''1'', Forward), (''2'', Forward), (''3'', Forward), (''4'', Forward)]
    \<and> map_of (paths g_pq) ''p'' = Some [(''7'', Forward), (''1'', Forward), (''2'', Forward),
         (''3'', Forward), (''4'', Forward), (''5'', Forward)]"
proof -
  let ?path = "[(''7'', Forward), (''1'', Forward), (''2'', Forward),
         (''3'', Forward), (''4'', Forward), (''5'', Forward)]"
  have d: "distinct (map fst (paths g_pq))" by code_simp
  have fe: "final_endpoints decimal g_pq = Inr [''1'', ''3'', ''4'']" by code_simp
  have p: "map_of (paths g_pq) ''p'' = Some ?path" by code_simp
  have idx: "comprehension (list_index (map fst ?path)) [''1'', ''3'', ''4''] = Inr [1, 3, 4]"
    by code_simp
  have s: "sorted [1, 3, 4 :: nat]" by simp
  have l: "2 \<le> length [''1'', ''3'', ''4'']" by simp
  have sl: "slice ?path (hd [1, 3, 4]) (last [1, 3, 4] + 1)
      = [(''1'', Forward), (''2'', Forward), (''3'', Forward), (''4'', Forward)]"
    by code_simp
  from chains_join_to_the_path_between_the_outer_anchors [OF d fe p idx s l] sl p
  show ?thesis by auto
qed



end
